theory Spec2Isabelle
  imports Main "HOL-Library.Word" "HOL-Library.Char_ord"
begin

unbundle bit_operations_syntax

section \<open>Diagnostics (error.h)\<close>

text \<open>
  A span is the triple (offset, line, column). An error is its kind and its span; the
  formatted message is not modelled. \<open>XCDN_ERR_NONE\<close> is the value \<open>None\<close> of an
  \<open>xcdn_error option\<close>, so \<open>xcdn_error_is_set\<close> is \<open>err \<noteq> None\<close>.
\<close>

datatype xcdn_span = Span (sp_offset: nat) (sp_line: nat) (sp_column: nat)

datatype xcdn_error_kind =
    XCDN_ERR_EOF
  | XCDN_ERR_INVALID_TOKEN
  | XCDN_ERR_EXPECTED
  | XCDN_ERR_INVALID_ESCAPE
  | XCDN_ERR_INVALID_NUMBER
  | XCDN_ERR_INVALID_DECIMAL
  | XCDN_ERR_INVALID_DATETIME
  | XCDN_ERR_INVALID_DURATION
  | XCDN_ERR_INVALID_UUID
  | XCDN_ERR_INVALID_BASE64
  | XCDN_ERR_MESSAGE
  | XCDN_ERR_OUT_OF_MEMORY

datatype xcdn_error = Error (err_kind: xcdn_error_kind) (err_span: xcdn_span)

section \<open>Lexer (lexer.h, lexer.c)\<close>

datatype xcdn_token_type =
    XCDN_TOK_LBRACE
  | XCDN_TOK_RBRACE
  | XCDN_TOK_LBRACKET
  | XCDN_TOK_RBRACKET
  | XCDN_TOK_LPAREN
  | XCDN_TOK_RPAREN
  | XCDN_TOK_COLON
  | XCDN_TOK_COMMA
  | XCDN_TOK_DOLLAR
  | XCDN_TOK_HASH
  | XCDN_TOK_AT
  | XCDN_TOK_TRUE
  | XCDN_TOK_FALSE
  | XCDN_TOK_NULL
  | XCDN_TOK_IDENT
  | XCDN_TOK_INT
  | XCDN_TOK_FLOAT
  | XCDN_TOK_STRING
  | XCDN_TOK_TRIPLE_STRING
  | XCDN_TOK_D_QUOTED
  | XCDN_TOK_B_QUOTED
  | XCDN_TOK_U_QUOTED
  | XCDN_TOK_T_QUOTED
  | XCDN_TOK_R_QUOTED
  | XCDN_TOK_EOF

text \<open>
  The union \<open>data\<close> of a token. \<open>No_Data\<close> is the zeroed union left by \<open>memset\<close>.
  The type \<open>'f\<close> stands for the C \<open>double\<close>: the conversion \<open>strtod\<close> and the
  \<open>%g\<close> format belong to the C library, and the functions below take them as the
  parameters \<open>sd\<close> and \<open>fmt_g\<close>. A string payload is the pair (str, len) of the
  source, that is, every byte of the buffer.
\<close>

datatype 'f tok_data = No_Data | Int_Val int | Float_Val 'f | String_Val string

datatype 'f xcdn_token =
  Token (tok_type: xcdn_token_type) (tok_span: xcdn_span) (tok_data: "'f tok_data")

text \<open>A token after \<open>memset(&tok, 0, sizeof(tok))\<close>: the type with value 0 is \<open>{\<close>.\<close>

definition zero_token :: "'f xcdn_token" where
  "zero_token = Token XCDN_TOK_LBRACE (Span 0 0 0) No_Data"

text \<open>The lexer state; \<open>src_len\<close> is \<open>length (src lx)\<close>.\<close>

record xcdn_lexer =
  src :: string
  idx :: nat
  line :: nat
  col :: nat

abbreviation dquote :: char where "dquote \<equiv> CHR 0x22"
abbreviation bslash :: char where "bslash \<equiv> CHR 0x5C"
abbreviation newline :: char where "newline \<equiv> CHR 0x0A"
abbreviation creturn :: char where "creturn \<equiv> CHR 0x0D"
abbreviation tabchar :: char where "tabchar \<equiv> CHR 0x09"

definition is_ident_start :: "char \<Rightarrow> bool" where
  "is_ident_start b \<longleftrightarrow>
     (CHR ''A'' \<le> b \<and> b \<le> CHR ''Z'') \<or> (CHR ''a'' \<le> b \<and> b \<le> CHR ''z'') \<or> b = CHR ''_''"

definition is_ident_part :: "char \<Rightarrow> bool" where
  "is_ident_part b \<longleftrightarrow>
     is_ident_start b \<or> (CHR ''0'' \<le> b \<and> b \<le> CHR ''9'') \<or> b = CHR ''-''"

text \<open>The C library's \<open>isxdigit\<close>, \<open>isdigit\<close> and \<open>isalnum\<close> in the "C" locale.\<close>

definition isdigit :: "char \<Rightarrow> bool" where
  "isdigit c \<longleftrightarrow> CHR ''0'' \<le> c \<and> c \<le> CHR ''9''"

definition isxdigit :: "char \<Rightarrow> bool" where
  "isxdigit c \<longleftrightarrow>
     (CHR ''0'' \<le> c \<and> c \<le> CHR ''9'') \<or> (CHR ''a'' \<le> c \<and> c \<le> CHR ''f'')
       \<or> (CHR ''A'' \<le> c \<and> c \<le> CHR ''F'')"

definition isalnum :: "char \<Rightarrow> bool" where
  "isalnum c \<longleftrightarrow>
     (CHR ''0'' \<le> c \<and> c \<le> CHR ''9'') \<or> (CHR ''a'' \<le> c \<and> c \<le> CHR ''z'')
       \<or> (CHR ''A'' \<le> c \<and> c \<le> CHR ''Z'')"

text \<open>\<open>lex_peek\<close> and \<open>lex_bump\<close> return \<open>-1\<close> at the end of the input: here \<open>None\<close>.\<close>

definition lex_peek :: "xcdn_lexer \<Rightarrow> char option" where
  "lex_peek lx = (if idx lx \<ge> length (src lx) then None else Some (src lx ! idx lx))"

definition lex_peek_at :: "xcdn_lexer \<Rightarrow> nat \<Rightarrow> char option" where
  "lex_peek_at lx off =
     (let pos = idx lx + off in
      if pos \<ge> length (src lx) then None else Some (src lx ! pos))"

definition lex_bump :: "xcdn_lexer \<Rightarrow> char option \<times> xcdn_lexer" where
  "lex_bump lx =
     (if idx lx \<ge> length (src lx) then (None, lx)
      else
        let b = src lx ! idx lx in
        if b = newline
        then (Some b, lx\<lparr>idx := idx lx + 1, line := line lx + 1, col := 1\<rparr>)
        else (Some b, lx\<lparr>idx := idx lx + 1, col := col lx + 1\<rparr>))"

definition lex_span :: "xcdn_lexer \<Rightarrow> xcdn_span" where
  "lex_span lx = Span (idx lx) (line lx) (col lx)"

lemma lex_bump_src [simp]: "src (snd (lex_bump lx)) = src lx"
  by (simp add: lex_bump_def Let_def)

lemma lex_bump_idx:
  "idx (snd (lex_bump lx)) = (if idx lx < length (src lx) then idx lx + 1 else idx lx)"
  by (simp add: lex_bump_def Let_def)

lemma lex_bump_Some_idx:
  "lex_bump lx = (Some b, lx') \<Longrightarrow> idx lx < length (src lx) \<and> idx lx' = idx lx + 1 \<and> src lx' = src lx"
  by (auto simp: lex_bump_def Let_def split: if_splits)

lemma lex_bump_None:
  "lex_bump lx = (None, lx') \<Longrightarrow> lx' = lx"
  by (auto simp: lex_bump_def Let_def split: if_splits)

subsection \<open>Whitespace and comments\<close>

text \<open>The three inner \<open>while\<close> loops of \<open>skip_ws_and_comments\<close>.\<close>

function skip_whitespace :: "xcdn_lexer \<Rightarrow> xcdn_lexer" where
  "skip_whitespace lx =
     (if idx lx < length (src lx) then
        let b = src lx ! idx lx in
        if b = CHR '' '' \<or> b = tabchar \<or> b = creturn \<or> b = newline
        then skip_whitespace (snd (lex_bump lx))
        else lx
      else lx)"
  by pat_completeness auto
termination
  by (relation "measure (\<lambda>lx. length (src lx) - idx lx)") (auto simp: lex_bump_idx)

function skip_line_comment :: "xcdn_lexer \<Rightarrow> xcdn_lexer" where
  "skip_line_comment lx =
     (if idx lx < length (src lx) then
        (case lex_bump lx of
           (c, lx') \<Rightarrow> if c = Some newline then lx' else skip_line_comment lx')
      else lx)"
  by pat_completeness auto
termination
  by (relation "measure (\<lambda>lx. length (src lx) - idx lx)")
     (auto simp: lex_bump_def Let_def split: if_splits)

function skip_block_comment :: "xcdn_lexer \<Rightarrow> xcdn_lexer" where
  "skip_block_comment lx =
     (if idx lx < length (src lx) then
        (case lex_bump lx of
           (c, lx') \<Rightarrow>
             if c = Some (CHR ''*'') \<and> lex_peek lx' = Some (CHR ''/'')
             then snd (lex_bump lx')
             else skip_block_comment lx')
      else lx)"
  by pat_completeness auto
termination
  by (relation "measure (\<lambda>lx. length (src lx) - idx lx)")
     (auto simp: lex_bump_def Let_def split: if_splits)

declare skip_whitespace.simps [simp del]
declare skip_line_comment.simps [simp del]
declare skip_block_comment.simps [simp del]

lemma skip_whitespace_mono:
  "src (skip_whitespace lx) = src lx \<and> idx lx \<le> idx (skip_whitespace lx)"
proof (induction lx rule: skip_whitespace.induct)
  case (1 lx)
  show ?case
  proof (cases "idx lx < length (src lx) \<and>
      (src lx ! idx lx = CHR '' '' \<or> src lx ! idx lx = tabchar
        \<or> src lx ! idx lx = creturn \<or> src lx ! idx lx = newline)")
    case True
    with 1 have "src (skip_whitespace (snd (lex_bump lx))) = src (snd (lex_bump lx))
      \<and> idx (snd (lex_bump lx)) \<le> idx (skip_whitespace (snd (lex_bump lx)))"
      by simp
    with True show ?thesis
      by (subst (1 2) skip_whitespace.simps) (auto simp: lex_bump_idx)
  next
    case False
    then show ?thesis
      by (subst (1 2) skip_whitespace.simps) auto
  qed
qed

lemma skip_line_comment_mono:
  "src (skip_line_comment lx) = src lx \<and> idx lx \<le> idx (skip_line_comment lx)"
proof (induction lx rule: skip_line_comment.induct)
  case (1 lx)
  show ?case
  proof (cases "idx lx < length (src lx)")
    case True
    obtain c lx' where b: "lex_bump lx = (c, lx')" by (cases "lex_bump lx")
    with True have s: "src lx' = src lx" "idx lx' = idx lx + 1"
      using lex_bump_src [of lx] lex_bump_idx [of lx] by auto
    show ?thesis
    proof (cases "c = Some newline")
      case True
      with b s \<open>idx lx < length (src lx)\<close> show ?thesis
        by (subst (1 2) skip_line_comment.simps) simp
    next
      case False
      with 1 [OF \<open>idx lx < length (src lx)\<close> b [symmetric]]
      have "src (skip_line_comment lx') = src lx' \<and> idx lx' \<le> idx (skip_line_comment lx')"
        by simp
      with False b s \<open>idx lx < length (src lx)\<close> show ?thesis
        by (subst (1 2) skip_line_comment.simps) simp
    qed
  next
    case False
    then show ?thesis
      by (subst (1 2) skip_line_comment.simps) simp
  qed
qed

lemma skip_block_comment_mono:
  "src (skip_block_comment lx) = src lx \<and> idx lx \<le> idx (skip_block_comment lx)"
proof (induction lx rule: skip_block_comment.induct)
  case (1 lx)
  show ?case
  proof (cases "idx lx < length (src lx)")
    case True
    obtain c lx' where b: "lex_bump lx = (c, lx')" by (cases "lex_bump lx")
    with True have s: "src lx' = src lx" "idx lx' = idx lx + 1"
      using lex_bump_src [of lx] lex_bump_idx [of lx] by auto
    show ?thesis
    proof (cases "c = Some (CHR ''*'') \<and> lex_peek lx' = Some (CHR ''/'')")
      case True
      with b s \<open>idx lx < length (src lx)\<close> show ?thesis
        by (subst (1 2) skip_block_comment.simps) (simp add: lex_bump_idx)
    next
      case False
      with 1 [OF \<open>idx lx < length (src lx)\<close> b [symmetric]]
      have "src (skip_block_comment lx') = src lx' \<and> idx lx' \<le> idx (skip_block_comment lx')"
        by simp
      with False b s \<open>idx lx < length (src lx)\<close> show ?thesis
        by (subst (1 2) skip_block_comment.simps) auto
    qed
  next
    case False
    then show ?thesis
      by (subst (1 2) skip_block_comment.simps) simp
  qed
qed

function skip_ws_and_comments :: "xcdn_lexer \<Rightarrow> xcdn_lexer" where
  "skip_ws_and_comments lx0 =
     (let lx = skip_whitespace lx0 in
      if idx lx \<ge> length (src lx) then lx
      else
        let b = src lx ! idx lx in
        if b = CHR ''/'' \<and> idx lx + 1 < length (src lx) then
          let b2 = src lx ! (idx lx + 1) in
          if b2 = CHR ''/'' then
            skip_ws_and_comments (skip_line_comment (snd (lex_bump (snd (lex_bump lx)))))
          else if b2 = CHR ''*'' then
            skip_ws_and_comments (skip_block_comment (snd (lex_bump (snd (lex_bump lx)))))
          else lx
        else lx)"
  by pat_completeness auto
termination
proof (relation "measure (\<lambda>lx. length (src lx) - idx lx)", goal_cases)
  case 1
  show ?case by simp
next
  case (2 lx0 lx b b2)
  have "idx lx0 \<le> idx lx" "src lx = src lx0"
    using 2 skip_whitespace_mono [of lx0] by auto
  moreover have "idx lx + 2 \<le> idx (skip_line_comment (snd (lex_bump (snd (lex_bump lx)))))"
    "src (skip_line_comment (snd (lex_bump (snd (lex_bump lx))))) = src lx"
    using 2 skip_line_comment_mono [of "snd (lex_bump (snd (lex_bump lx)))"]
    by (auto simp: lex_bump_idx)
  ultimately show ?case using 2 by auto
next
  case (3 lx0 lx b b2)
  have "idx lx0 \<le> idx lx" "src lx = src lx0"
    using 3 skip_whitespace_mono [of lx0] by auto
  moreover have "idx lx + 2 \<le> idx (skip_block_comment (snd (lex_bump (snd (lex_bump lx)))))"
    "src (skip_block_comment (snd (lex_bump (snd (lex_bump lx))))) = src lx"
    using 3 skip_block_comment_mono [of "snd (lex_bump (snd (lex_bump lx)))"]
    by (auto simp: lex_bump_idx)
  ultimately show ?case using 3 by auto
qed

declare skip_ws_and_comments.simps [simp del]

subsection \<open>Strings\<close>

text \<open>
  \<open>read_string\<close> returns the buffer, or \<open>NULL\<close> with \<open>*err\<close> set: here
  \<open>Inr\<close> the bytes of the buffer or \<open>Inl\<close> the error. \<open>strbuf_push\<close> appends
  one byte. \<open>read_hex\<close> is the loop \<open>for (i = 0; i < 4; i++)\<close> of the \<open>\u\<close> case.
\<close>

fun read_hex :: "nat \<Rightarrow> xcdn_lexer \<Rightarrow> string \<Rightarrow> string option \<times> xcdn_lexer" where
  "read_hex 0 lx sb = (Some sb, lx)"
| "read_hex (Suc n) lx sb =
     (case lex_bump lx of
        (None, lx') \<Rightarrow> (None, lx')
      | (Some h, lx') \<Rightarrow> if \<not> isxdigit h then (None, lx') else read_hex n lx' (sb @ [h]))"

lemma read_hex_mono:
  "read_hex n lx sb = (r, lx') \<Longrightarrow> src lx' = src lx \<and> idx lx \<le> idx lx'"
proof (induction n arbitrary: lx sb)
  case 0
  then show ?case by simp
next
  case (Suc n)
  show ?case
  proof (cases "lex_bump lx")
    case (Pair c lx1)
    show ?thesis
    proof (cases c)
      case None
      with Pair Suc.prems show ?thesis by (auto dest: lex_bump_None)
    next
      case (Some h)
      with Pair have s: "src lx1 = src lx" "idx lx1 = idx lx + 1"
        by (auto dest: lex_bump_Some_idx)
      show ?thesis
      proof (cases "isxdigit h")
        case True
        with Pair Some Suc.prems have "read_hex n lx1 (sb @ [h]) = (r, lx')" by simp
        from Suc.IH [OF this] s show ?thesis by simp
      next
        case False
        with Pair Some Suc.prems s show ?thesis by auto
      qed
    qed
  qed
qed

function read_triple_loop ::
  "xcdn_span \<Rightarrow> xcdn_lexer \<Rightarrow> string \<Rightarrow> (xcdn_error + string) \<times> xcdn_lexer" where
  "read_triple_loop start_span lx sb =
     (if lex_peek lx = Some dquote \<and> lex_peek_at lx 1 = Some dquote
         \<and> lex_peek_at lx 2 = Some dquote
      then (Inr sb, snd (lex_bump (snd (lex_bump (snd (lex_bump lx))))))
      else
        (case lex_bump lx of
           (None, lx') \<Rightarrow> (Inl (Error XCDN_ERR_EOF start_span), lx')
         | (Some b, lx') \<Rightarrow> read_triple_loop start_span lx' (sb @ [b])))"
  by pat_completeness auto
termination
  by (relation "measure (\<lambda>(sp, lx, sb). length (src lx) - idx lx)")
     (auto dest!: lex_bump_Some_idx [OF sym])

function read_string_loop ::
  "xcdn_span \<Rightarrow> xcdn_lexer \<Rightarrow> string \<Rightarrow> (xcdn_error + string) \<times> xcdn_lexer" where
  "read_string_loop start_span lx sb =
     (case lex_bump lx of
        (None, lx1) \<Rightarrow> (Inl (Error XCDN_ERR_EOF start_span), lx1)
      | (Some b, lx1) \<Rightarrow>
          if b = dquote then (Inr sb, lx1)
          else if b = bslash then
            (case lex_bump lx1 of
               (None, lx2) \<Rightarrow> (Inl (Error XCDN_ERR_INVALID_ESCAPE start_span), lx2)
             | (Some e, lx2) \<Rightarrow>
                 if e = dquote then read_string_loop start_span lx2 (sb @ [dquote])
                 else if e = bslash then read_string_loop start_span lx2 (sb @ [bslash])
                 else if e = CHR ''/'' then read_string_loop start_span lx2 (sb @ [bslash, CHR ''/''])
                 else if e = CHR ''b'' then read_string_loop start_span lx2 (sb @ [bslash, CHR ''b''])
                 else if e = CHR ''f'' then read_string_loop start_span lx2 (sb @ [bslash, CHR ''f''])
                 else if e = CHR ''n'' then read_string_loop start_span lx2 (sb @ [bslash, CHR ''n''])
                 else if e = CHR ''r'' then read_string_loop start_span lx2 (sb @ [bslash, CHR ''r''])
                 else if e = CHR ''t'' then read_string_loop start_span lx2 (sb @ [bslash, CHR ''t''])
                 else if e = CHR ''u'' then
                   (case read_hex 4 lx2 (sb @ [bslash, CHR ''u'']) of
                      (None, lx3) \<Rightarrow> (Inl (Error XCDN_ERR_INVALID_ESCAPE start_span), lx3)
                    | (Some sb', lx3) \<Rightarrow> read_string_loop start_span lx3 sb')
                 else (Inl (Error XCDN_ERR_INVALID_ESCAPE start_span), lx2))
          else read_string_loop start_span lx1 (sb @ [b]))"
  by pat_completeness auto
termination
  by (relation "measure (\<lambda>(sp, lx, sb). length (src lx) - idx lx)")
     (auto dest!: lex_bump_Some_idx [OF sym] read_hex_mono [OF sym])

declare read_triple_loop.simps [simp del]
declare read_string_loop.simps [simp del]

definition read_string :: "xcdn_lexer \<Rightarrow> bool \<Rightarrow> (xcdn_error + string) \<times> xcdn_lexer" where
  "read_string lx triple =
     (let start_span = lex_span lx in
      if triple then
        read_triple_loop start_span (snd (lex_bump (snd (lex_bump (snd (lex_bump lx)))))) []
      else
        (case lex_bump lx of
           (q, lx1) \<Rightarrow>
             if q \<noteq> Some dquote then (Inl (Error XCDN_ERR_EXPECTED start_span), lx1)
             else read_string_loop start_span lx1 []))"

subsection \<open>Identifiers\<close>

function read_ident_loop :: "xcdn_lexer \<Rightarrow> xcdn_lexer" where
  "read_ident_loop lx =
     (if idx lx < length (src lx) \<and> is_ident_part (src lx ! idx lx)
      then read_ident_loop (snd (lex_bump lx))
      else lx)"
  by pat_completeness auto
termination
  by (relation "measure (\<lambda>lx. length (src lx) - idx lx)") (auto simp: lex_bump_idx)

declare read_ident_loop.simps [simp del]

definition read_ident :: "xcdn_lexer \<Rightarrow> string \<times> xcdn_lexer" where
  "read_ident lx =
     (let start = idx lx;
          lx1 = snd (lex_bump lx);
          lx2 = read_ident_loop lx1;
          len = idx lx2 - start
      in (take len (drop start (src lx2)), lx2))"

subsection \<open>Numbers\<close>

text \<open>
  The C library's \<open>strtoll(tmp, &endp, 10)\<close>, after ISO C 7.22.1.4: white space is
  skipped, then an optional sign and the longest run of decimal digits are converted.
  The result is the value, whether \<open>errno\<close> is \<open>ERANGE\<close>, and \<open>endp - tmp\<close>
  (\<open>0\<close> when nothing was converted). A value outside \<open>long long\<close> is clamped to
  \<open>LLONG_MAX\<close> or \<open>LLONG_MIN\<close> and reported by \<open>ERANGE\<close>.
\<close>

definition isspace :: "char \<Rightarrow> bool" where
  "isspace c \<longleftrightarrow> c = CHR '' '' \<or> (tabchar \<le> c \<and> c \<le> creturn)"

definition dec_value :: "string \<Rightarrow> int" where
  "dec_value ds = foldl (\<lambda>a c. 10 * a + (of_char c - 48)) 0 ds"

definition LLONG_MAX :: int where "LLONG_MAX = 2 ^ 63 - 1"
definition LLONG_MIN :: int where "LLONG_MIN = - (2 ^ 63)"

definition strtoll :: "string \<Rightarrow> int \<times> bool \<times> nat" where
  "strtoll s =
     (let ws = takeWhile isspace s;
          s1 = dropWhile isspace s;
          has_sign = (s1 \<noteq> [] \<and> (hd s1 = CHR ''+'' \<or> hd s1 = CHR ''-''));
          neg = (s1 \<noteq> [] \<and> hd s1 = CHR ''-'');
          s2 = (if has_sign then tl s1 else s1);
          ds = takeWhile isdigit s2
      in
        if ds = [] then (0, False, 0)
        else
          let consumed = length ws + (if has_sign then 1 else 0) + length ds;
              v = (if neg then - dec_value ds else dec_value ds)
          in
            if v > LLONG_MAX then (LLONG_MAX, True, consumed)
            else if v < LLONG_MIN then (LLONG_MIN, True, consumed)
            else (v, False, consumed))"

text \<open>
  The scanning loop of \<open>read_number\<close>; it returns the lexer and the three flags
  \<open>has_dot\<close>, \<open>has_exp\<close>, \<open>has_digit\<close>.
\<close>

function number_loop ::
  "xcdn_lexer \<Rightarrow> bool \<Rightarrow> bool \<Rightarrow> bool \<Rightarrow> xcdn_lexer \<times> bool \<times> bool \<times> bool" where
  "number_loop lx has_dot has_exp has_digit =
     (case lex_peek lx of
        None \<Rightarrow> (lx, has_dot, has_exp, has_digit)
      | Some p \<Rightarrow>
          if CHR ''0'' \<le> p \<and> p \<le> CHR ''9'' then
            number_loop (snd (lex_bump lx)) has_dot has_exp True
          else if p = CHR ''.'' \<and> \<not> has_dot \<and> \<not> has_exp then
            number_loop (snd (lex_bump lx)) True has_exp has_digit
          else if (p = CHR ''e'' \<or> p = CHR ''E'') \<and> \<not> has_exp then
            let lx1 = snd (lex_bump lx);
                sign = lex_peek lx1;
                lx2 = (if sign = Some (CHR ''+'') \<or> sign = Some (CHR ''-'')
                       then snd (lex_bump lx1) else lx1)
            in number_loop lx2 has_dot True has_digit
          else (lx, has_dot, has_exp, has_digit))"
  by pat_completeness auto
termination
  by (relation "measure (\<lambda>(lx, d, e, g). length (src lx) - idx lx)")
     (auto simp: lex_bump_idx lex_peek_def split: if_splits)

declare number_loop.simps [simp del]

text \<open>
  \<open>read_number\<close> writes \<open>*out_int\<close> or \<open>*out_float\<close> with \<open>*is_float_out\<close>, or sets
  \<open>*err\<close>: here \<open>Inr (Int_Val v)\<close>, \<open>Inr (Float_Val v)\<close> or \<open>Inl\<close> the error.
  It is modelled in three parts: \<open>scan_number\<close> is the optional sign and the scanning
  loop; \<open>convert_number\<close> is the conversion of the text \<open>tmp\<close> at the end, where
  \<open>sd tmp\<close> is \<open>strtod(tmp, &endp)\<close>, \<open>None\<close> when
  \<open>errno == ERANGE || endp == tmp\<close>; \<open>read_number\<close> copies the lexeme into the
  buffer \<open>tmp\<close> of 128 bytes in between.
\<close>

definition scan_number :: "xcdn_lexer \<Rightarrow> xcdn_lexer \<times> bool \<times> bool \<times> bool" where
  "scan_number lx0 =
     (let p = lex_peek lx0;
          lx1 = (if p = Some (CHR ''+'') \<or> p = Some (CHR ''-'') then snd (lex_bump lx0) else lx0)
      in number_loop lx1 False False False)"

definition convert_number ::
  "(string \<Rightarrow> 'f option) \<Rightarrow> bool \<Rightarrow> string \<Rightarrow> xcdn_span \<Rightarrow> xcdn_error + 'f tok_data" where
  "convert_number sd is_float tmp sp =
     (if is_float then
        (case sd tmp of
           None \<Rightarrow> Inl (Error XCDN_ERR_INVALID_NUMBER sp)
         | Some v \<Rightarrow> Inr (Float_Val v))
      else
        (case strtoll tmp of
           (v, erange, consumed) \<Rightarrow>
             if erange \<or> consumed = 0 then Inl (Error XCDN_ERR_INVALID_NUMBER sp)
             else Inr (Int_Val v)))"

definition read_number ::
  "(string \<Rightarrow> 'f option) \<Rightarrow> xcdn_lexer \<Rightarrow> (xcdn_error + 'f tok_data) \<times> xcdn_lexer" where
  "read_number sd lx0 =
     (let start = idx lx0 in
        case scan_number lx0 of
          (lx, has_dot, has_exp, has_digit) \<Rightarrow>
            if \<not> has_digit then (Inl (Error XCDN_ERR_INVALID_NUMBER (lex_span lx)), lx)
            else
              let len0 = idx lx - start;
                  len = (if len0 \<ge> 128 then 128 - 1 else len0);
                  tmp = take len (drop start (src lx))
              in (convert_number sd (has_dot \<or> has_exp) tmp (lex_span lx), lx))"

subsection \<open>The next token\<close>

text \<open>The token returned with an error: \<open>tok.type = XCDN_TOK_EOF\<close> on the zeroed token.\<close>

definition error_token :: "'f xcdn_token" where
  "error_token = Token XCDN_TOK_EOF (Span 0 0 0) No_Data"

text \<open>The \<open>switch\<close> over the single-character tokens.\<close>

definition single_char_token :: "char \<Rightarrow> xcdn_token_type option" where
  "single_char_token b =
     (if b = CHR ''{'' then Some XCDN_TOK_LBRACE
      else if b = CHR ''}'' then Some XCDN_TOK_RBRACE
      else if b = CHR ''['' then Some XCDN_TOK_LBRACKET
      else if b = CHR '']'' then Some XCDN_TOK_RBRACKET
      else if b = CHR ''('' then Some XCDN_TOK_LPAREN
      else if b = CHR '')'' then Some XCDN_TOK_RPAREN
      else if b = CHR '':'' then Some XCDN_TOK_COLON
      else if b = CHR '','' then Some XCDN_TOK_COMMA
      else if b = CHR ''$'' then Some XCDN_TOK_DOLLAR
      else if b = CHR ''#'' then Some XCDN_TOK_HASH
      else if b = CHR ''@'' then Some XCDN_TOK_AT
      else None)"

text \<open>The second \<open>switch\<close>, from the type byte of a typed string to its token type.\<close>

definition typed_token_type :: "char \<Rightarrow> xcdn_token_type" where
  "typed_token_type ch =
     (if ch = CHR ''d'' then XCDN_TOK_D_QUOTED
      else if ch = CHR ''b'' then XCDN_TOK_B_QUOTED
      else if ch = CHR ''u'' then XCDN_TOK_U_QUOTED
      else if ch = CHR ''t'' then XCDN_TOK_T_QUOTED
      else if ch = CHR ''r'' then XCDN_TOK_R_QUOTED
      else XCDN_TOK_LBRACE)"

text \<open>
  \<open>xcdn_lexer_next\<close> returns the token and writes \<open>*err\<close> (first cleared to
  \<open>xcdn_error_none()\<close>) and the lexer: here the triple of the three.
\<close>

definition xcdn_lexer_next ::
  "(string \<Rightarrow> 'f option) \<Rightarrow> xcdn_lexer \<Rightarrow> 'f xcdn_token \<times> xcdn_error option \<times> xcdn_lexer" where
  "xcdn_lexer_next sd lx0 =
     (let lx = skip_ws_and_comments lx0;
          start = lex_span lx
      in
        case lex_peek lx of
          None \<Rightarrow> (Token XCDN_TOK_EOF start No_Data, None, lx)
        | Some b \<Rightarrow>
            if b = dquote \<and> lex_peek_at lx 1 = Some dquote \<and> lex_peek_at lx 2 = Some dquote then
              (case read_string lx True of
                 (Inl e, lx') \<Rightarrow> (error_token, Some e, lx')
               | (Inr s, lx') \<Rightarrow> (Token XCDN_TOK_TRIPLE_STRING start (String_Val s), None, lx'))
            else
              (case single_char_token b of
                 Some ty \<Rightarrow> (Token ty start No_Data, None, snd (lex_bump lx))
               | None \<Rightarrow>
                   if b = dquote then
                     (case read_string lx False of
                        (Inl e, lx') \<Rightarrow> (error_token, Some e, lx')
                      | (Inr s, lx') \<Rightarrow> (Token XCDN_TOK_STRING start (String_Val s), None, lx'))
                   else if b = CHR ''.'' \<or> b = CHR ''-'' \<or> b = CHR ''+''
                           \<or> (CHR ''0'' \<le> b \<and> b \<le> CHR ''9'') then
                     (case read_number sd lx of
                        (Inl e, lx') \<Rightarrow> (error_token, Some e, lx')
                      | (Inr (Float_Val fv), lx') \<Rightarrow> (Token XCDN_TOK_FLOAT start (Float_Val fv), None, lx')
                      | (Inr d, lx') \<Rightarrow> (Token XCDN_TOK_INT start d, None, lx'))
                   else if (b = CHR ''d'' \<or> b = CHR ''b'' \<or> b = CHR ''u'' \<or> b = CHR ''t''
                              \<or> b = CHR ''r'') \<and> lex_peek_at lx 1 = Some dquote then
                     (case read_string (snd (lex_bump lx)) False of
                        (Inl e, lx') \<Rightarrow> (error_token, Some e, lx')
                      | (Inr s, lx') \<Rightarrow> (Token (typed_token_type b) start (String_Val s), None, lx'))
                   else if is_ident_start b then
                     (case read_ident lx of
                        (s, lx') \<Rightarrow>
                          if s = ''true'' then (Token XCDN_TOK_TRUE start No_Data, None, lx')
                          else if s = ''false'' then (Token XCDN_TOK_FALSE start No_Data, None, lx')
                          else if s = ''null'' then (Token XCDN_TOK_NULL start No_Data, None, lx')
                          else (Token XCDN_TOK_IDENT start (String_Val s), None, lx'))
                   else (error_token, Some (Error XCDN_ERR_INVALID_TOKEN start), lx)))"

definition xcdn_lexer_init :: "string \<Rightarrow> xcdn_lexer" where
  "xcdn_lexer_init s = \<lparr>src = s, idx = 0, line = 1, col = 1\<rparr>"

section \<open>Document model (ast.h, ast.c)\<close>

text \<open>
  A \<open>char *\<close> field holds a C string: its content ends at the first NUL byte.
  \<open>cstr\<close> is that content, \<open>xcdn_strdup\<close> copies it, and \<open>strcmp_eq a b\<close> is
  \<open>strcmp(a, b) == 0\<close>.
\<close>

definition cstr :: "string \<Rightarrow> string" where
  "cstr s = takeWhile (\<lambda>c. c \<noteq> CHR 0x00) s"

definition xcdn_strdup :: "string \<Rightarrow> string" where
  "xcdn_strdup s = cstr s"

definition strcmp_eq :: "string \<Rightarrow> string \<Rightarrow> bool" where
  "strcmp_eq a b \<longleftrightarrow> cstr a = cstr b"

text \<open>
  The tagged union \<open>xcdn_value\<close>, the annotation and the node. An array is the list of
  its items, an object the list of its entries (key, node) in insertion order. The
  \<open>value\<close> pointer of a node may be \<open>NULL\<close> (\<open>xcdn_node_new(NULL)\<close>): \<open>None\<close>.
\<close>

datatype 'f xcdn_value =
    XCDN_VAL_NULL
  | XCDN_VAL_BOOL bool
  | XCDN_VAL_INT int
  | XCDN_VAL_FLOAT 'f
  | XCDN_VAL_DECIMAL string
  | XCDN_VAL_STRING string
  | XCDN_VAL_BYTES "8 word list"
  | XCDN_VAL_DATETIME string
  | XCDN_VAL_DURATION string
  | XCDN_VAL_UUID string
  | XCDN_VAL_ARRAY "'f xcdn_node list"
  | XCDN_VAL_OBJECT "(string \<times> 'f xcdn_node) list"
and 'f xcdn_annotation =
    Annotation (ann_name: string) (ann_args: "'f xcdn_value list")
and 'f xcdn_node =
    Node (tags: "string list") (annotations: "'f xcdn_annotation list")
         (node_value: "'f xcdn_value option")

datatype 'f xcdn_directive =
  Directive (dir_name: string) (dir_value: "'f xcdn_value option")

datatype 'f xcdn_document =
  Document (doc_prolog: "'f xcdn_directive list") (doc_values: "'f xcdn_node list")

definition xcdn_document_new :: "'f xcdn_document" where
  "xcdn_document_new = Document [] []"

definition xcdn_document_push_value :: "'f xcdn_document \<Rightarrow> 'f xcdn_node \<Rightarrow> 'f xcdn_document" where
  "xcdn_document_push_value doc node = Document (doc_prolog doc) (doc_values doc @ [node])"

definition xcdn_document_push_directive ::
  "'f xcdn_document \<Rightarrow> string \<Rightarrow> 'f xcdn_value option \<Rightarrow> 'f xcdn_document" where
  "xcdn_document_push_directive doc name v =
     Document (doc_prolog doc @ [Directive (xcdn_strdup name) v]) (doc_values doc)"

definition xcdn_node_new :: "'f xcdn_value option \<Rightarrow> 'f xcdn_node" where
  "xcdn_node_new v = Node [] [] v"

definition xcdn_node_add_tag :: "'f xcdn_node \<Rightarrow> string \<Rightarrow> 'f xcdn_node" where
  "xcdn_node_add_tag node name =
     Node (tags node @ [xcdn_strdup name]) (annotations node) (node_value node)"

definition xcdn_node_add_annotation :: "'f xcdn_node \<Rightarrow> string \<Rightarrow> 'f xcdn_node" where
  "xcdn_node_add_annotation node name =
     Node (tags node) (annotations node @ [Annotation (xcdn_strdup name) []]) (node_value node)"

definition xcdn_annotation_push_arg :: "'f xcdn_annotation \<Rightarrow> 'f xcdn_value \<Rightarrow> 'f xcdn_annotation" where
  "xcdn_annotation_push_arg ann v = Annotation (ann_name ann) (ann_args ann @ [v])"

text \<open>
  The parser pushes arguments through the pointer
  \<open>ann = &node->annotations[node->annotations_len - 1]\<close>: the last annotation of the node.
\<close>

definition push_arg_last :: "'f xcdn_node \<Rightarrow> 'f xcdn_value \<Rightarrow> 'f xcdn_node" where
  "push_arg_last node v =
     (if annotations node = [] then node
      else Node (tags node)
             (butlast (annotations node) @ [xcdn_annotation_push_arg (last (annotations node)) v])
             (node_value node))"

definition xcdn_value_string_owned :: "string \<Rightarrow> 'f xcdn_value" where
  "xcdn_value_string_owned s = XCDN_VAL_STRING (cstr s)"

definition xcdn_value_decimal :: "string \<Rightarrow> 'f xcdn_value" where
  "xcdn_value_decimal s = XCDN_VAL_DECIMAL (xcdn_strdup s)"

definition xcdn_value_datetime :: "string \<Rightarrow> 'f xcdn_value" where
  "xcdn_value_datetime s = XCDN_VAL_DATETIME (xcdn_strdup s)"

definition xcdn_value_duration :: "string \<Rightarrow> 'f xcdn_value" where
  "xcdn_value_duration s = XCDN_VAL_DURATION (xcdn_strdup s)"

definition xcdn_value_uuid :: "string \<Rightarrow> 'f xcdn_value" where
  "xcdn_value_uuid s = XCDN_VAL_UUID (xcdn_strdup s)"

definition xcdn_array_push :: "'f xcdn_value \<Rightarrow> 'f xcdn_node \<Rightarrow> 'f xcdn_value" where
  "xcdn_array_push arr node =
     (case arr of XCDN_VAL_ARRAY items \<Rightarrow> XCDN_VAL_ARRAY (items @ [node]) | _ \<Rightarrow> arr)"

text \<open>
  \<open>xcdn_object_set\<close>: the \<open>for\<close> loop looks for the first entry whose key compares
  equal, puts the node there and returns; \<open>object_replace\<close> is that loop, \<open>None\<close>
  when it ends without a match. Otherwise a new entry is added at the end.
\<close>

fun object_replace :: "(string \<times> 'n) list \<Rightarrow> string \<Rightarrow> 'n \<Rightarrow> (string \<times> 'n) list option" where
  "object_replace [] key node = None"
| "object_replace ((k, n) # es) key node =
     (if strcmp_eq k key then Some ((k, node) # es)
      else (case object_replace es key node of
              None \<Rightarrow> None
            | Some es' \<Rightarrow> Some ((k, n) # es')))"

definition xcdn_object_set :: "'f xcdn_value \<Rightarrow> string \<Rightarrow> 'f xcdn_node \<Rightarrow> 'f xcdn_value" where
  "xcdn_object_set obj key node =
     (case obj of
        XCDN_VAL_OBJECT entries \<Rightarrow>
          (case object_replace entries key node of
             Some entries' \<Rightarrow> XCDN_VAL_OBJECT entries'
           | None \<Rightarrow> XCDN_VAL_OBJECT (entries @ [(xcdn_strdup key, node)]))
      | _ \<Rightarrow> obj)"

fun object_lookup :: "(string \<times> 'n) list \<Rightarrow> string \<Rightarrow> 'n option" where
  "object_lookup [] key = None"
| "object_lookup ((k, n) # es) key = (if strcmp_eq k key then Some n else object_lookup es key)"

definition xcdn_object_get :: "'f xcdn_value \<Rightarrow> string \<Rightarrow> 'f xcdn_node option" where
  "xcdn_object_get obj key =
     (case obj of XCDN_VAL_OBJECT entries \<Rightarrow> object_lookup entries key | _ \<Rightarrow> None)"

definition xcdn_object_len :: "'f xcdn_value \<Rightarrow> nat" where
  "xcdn_object_len obj = (case obj of XCDN_VAL_OBJECT entries \<Rightarrow> length entries | _ \<Rightarrow> 0)"

definition xcdn_object_key_at :: "'f xcdn_value \<Rightarrow> nat \<Rightarrow> string option" where
  "xcdn_object_key_at obj i =
     (case obj of
        XCDN_VAL_OBJECT entries \<Rightarrow> if i \<ge> length entries then None else Some (fst (entries ! i))
      | _ \<Rightarrow> None)"

definition xcdn_object_node_at :: "'f xcdn_value \<Rightarrow> nat \<Rightarrow> 'f xcdn_node option" where
  "xcdn_object_node_at obj i =
     (case obj of
        XCDN_VAL_OBJECT entries \<Rightarrow> if i \<ge> length entries then None else Some (snd (entries ! i))
      | _ \<Rightarrow> None)"

subsection \<open>Deep path access\<close>

text \<open>
  The C library's \<open>strtok_r(s, delim, &saveptr)\<close>: leading delimiters are skipped; at
  the end of the string there is no token (\<open>None\<close>); otherwise the token runs to the next
  delimiter, and \<open>saveptr\<close> is left behind that delimiter (or at the end of the string).
  A call \<open>strtok_r(NULL, delim, &saveptr)\<close> is the same function on the saved string.
\<close>

definition strtok_r :: "string \<Rightarrow> string \<Rightarrow> (string \<times> string) option" where
  "strtok_r s delim =
     (let s1 = dropWhile (\<lambda>c. c \<in> set delim) s in
      if s1 = [] then None
      else
        let token = takeWhile (\<lambda>c. c \<notin> set delim) s1;
            r = dropWhile (\<lambda>c. c \<notin> set delim) s1
        in Some (token, if r = [] then [] else tl r))"

lemma strtok_r_Some:
  assumes "strtok_r s delim = Some (token, r)"
  shows "dropWhile (\<lambda>c. c \<in> set delim) s \<noteq> [] \<and>
     r = (if dropWhile (\<lambda>c. c \<notin> set delim) (dropWhile (\<lambda>c. c \<in> set delim) s) = [] then []
          else tl (dropWhile (\<lambda>c. c \<notin> set delim) (dropWhile (\<lambda>c. c \<in> set delim) s)))"
proof (cases "dropWhile (\<lambda>c. c \<in> set delim) s = []")
  case True
  from assms [unfolded strtok_r_def Let_def] True show ?thesis
    by (simp only: if_True option.distinct simp_thms)
next
  case False
  from assms [unfolded strtok_r_def Let_def] False show ?thesis
    by (simp only: if_False option.inject prod.inject simp_thms)
qed

lemma strtok_r_shorter:
  assumes "strtok_r s delim = Some (token, r)"
  shows "length r < length s"
proof -
  let ?s1 = "dropWhile (\<lambda>c. c \<in> set delim) s"
  let ?r = "dropWhile (\<lambda>c. c \<notin> set delim) ?s1"
  from strtok_r_Some [OF assms] have ne: "?s1 \<noteq> []"
    and r: "r = (if ?r = [] then [] else tl ?r)"
    by blast+
  have l1: "length ?s1 \<le> length s" by (rule length_dropWhile_le)
  have l2: "length ?r \<le> length ?s1" by (rule length_dropWhile_le)
  from ne have pos: "0 < length ?s1" by (simp only: length_greater_0_conv simp_thms)
  show ?thesis
  proof (cases "?r = []")
    case True
    with r have "length r = 0" by (simp only: if_True list.size simp_thms)
    with pos l1 show ?thesis by linarith
  next
    case False
    with r have "length r = length ?r - 1" by (simp only: if_False length_tl simp_thms)
    moreover from False have "0 < length ?r" by (simp only: length_greater_0_conv simp_thms)
    ultimately show ?thesis using l1 l2 by linarith
  qed
qed

lemma strtok_r_measure:
  "(case strtok_r s delim of None \<Rightarrow> 0 | Some (seg, r) \<Rightarrow> Suc (length r)) < Suc (length s)"
proof (cases "strtok_r s delim")
  case None
  then show ?thesis by simp
next
  case (Some a)
  obtain seg r where "a = (seg, r)" by (cases a)
  with Some strtok_r_shorter [of s delim seg r] show ?thesis by simp
qed

definition is_object :: "'f xcdn_value \<Rightarrow> bool" where
  "is_object v = (case v of XCDN_VAL_OBJECT entries \<Rightarrow> True | _ \<Rightarrow> False)"

text \<open>
  The \<open>while (segment)\<close> loop of \<open>xcdn_get_path\<close>; its state is \<open>current\<close> and the
  result of the last \<open>strtok_r\<close> (the segment and \<open>saveptr\<close>).
\<close>

function get_path_loop ::
  "'f xcdn_node option \<Rightarrow> (string \<times> string) option \<Rightarrow> 'f xcdn_node option" where
  "get_path_loop current None = current"
| "get_path_loop current (Some (segment, saveptr)) =
     (case current of
        None \<Rightarrow> None
      | Some n \<Rightarrow>
          (case node_value n of
             None \<Rightarrow> None
           | Some v \<Rightarrow>
               if \<not> is_object v then None
               else get_path_loop (xcdn_object_get v segment) (strtok_r saveptr ''.'')))"
  by pat_completeness auto
termination
proof (relation "measure (\<lambda>(current, st). case st of None \<Rightarrow> 0 | Some (seg, r) \<Rightarrow> Suc (length r))",
    goal_cases)
  case 1
  show ?case by simp
next
  case (2 current segment saveptr n v)
  show ?case using strtok_r_measure [of saveptr "''.''"] by simp
qed

definition xcdn_get_path :: "'f xcdn_document \<Rightarrow> string \<Rightarrow> 'f xcdn_node option" where
  "xcdn_get_path doc path =
     (if doc_values doc = [] then None
      else get_path_loop (Some (doc_values doc ! 0)) (strtok_r (xcdn_strdup path) ''.''))"

section \<open>Parser (parser.h, parser.c)\<close>

subsection \<open>Base64 decoder\<close>

text \<open>
  \<open>b64_table\<close> is the array of 256 bytes: the entries the initialiser names, and 0
  everywhere else.
\<close>

definition b64_entries :: "(char \<times> 8 word) list" where
  "b64_entries =
     [(CHR ''A'', 0), (CHR ''B'', 1), (CHR ''C'', 2), (CHR ''D'', 3), (CHR ''E'', 4), (CHR ''F'', 5),
      (CHR ''G'', 6), (CHR ''H'', 7), (CHR ''I'', 8), (CHR ''J'', 9), (CHR ''K'', 10), (CHR ''L'', 11),
      (CHR ''M'', 12), (CHR ''N'', 13), (CHR ''O'', 14), (CHR ''P'', 15), (CHR ''Q'', 16), (CHR ''R'', 17),
      (CHR ''S'', 18), (CHR ''T'', 19), (CHR ''U'', 20), (CHR ''V'', 21), (CHR ''W'', 22), (CHR ''X'', 23),
      (CHR ''Y'', 24), (CHR ''Z'', 25), (CHR ''a'', 26), (CHR ''b'', 27), (CHR ''c'', 28), (CHR ''d'', 29),
      (CHR ''e'', 30), (CHR ''f'', 31), (CHR ''g'', 32), (CHR ''h'', 33), (CHR ''i'', 34), (CHR ''j'', 35),
      (CHR ''k'', 36), (CHR ''l'', 37), (CHR ''m'', 38), (CHR ''n'', 39), (CHR ''o'', 40), (CHR ''p'', 41),
      (CHR ''q'', 42), (CHR ''r'', 43), (CHR ''s'', 44), (CHR ''t'', 45), (CHR ''u'', 46), (CHR ''v'', 47),
      (CHR ''w'', 48), (CHR ''x'', 49), (CHR ''y'', 50), (CHR ''z'', 51), (CHR ''0'', 52), (CHR ''1'', 53),
      (CHR ''2'', 54), (CHR ''3'', 55), (CHR ''4'', 56), (CHR ''5'', 57), (CHR ''6'', 58), (CHR ''7'', 59),
      (CHR ''8'', 60), (CHR ''9'', 61), (CHR ''+'', 62), (CHR ''/'', 63), (CHR ''-'', 62), (CHR ''_'', 63)]"

definition b64_table :: "char \<Rightarrow> 8 word" where
  "b64_table c = (case map_of b64_entries c of Some v \<Rightarrow> v | None \<Rightarrow> 0)"

definition is_b64_char :: "char \<Rightarrow> bool" where
  "is_b64_char c \<longleftrightarrow>
     isalnum c \<or> c = CHR ''+'' \<or> c = CHR ''/'' \<or> c = CHR ''-'' \<or> c = CHR ''_'' \<or> c = CHR ''=''"

text \<open>The loop \<open>while (in_len > 0 && input[in_len - 1] == '=') in_len--\<close>.\<close>

definition strip_padding :: "string \<Rightarrow> string" where
  "strip_padding input = rev (dropWhile (\<lambda>c. c = CHR ''='') (rev input))"

text \<open>
  The \<open>for\<close> loop of \<open>decode_base64\<close> over the bytes that are left, with the
  accumulator (\<open>uint32_t\<close>), the bit count and the output written so far; \<open>None\<close> is
  the \<open>NULL\<close> returned at a byte that is not a base64 character.
\<close>

fun decode_loop :: "string \<Rightarrow> 32 word \<Rightarrow> nat \<Rightarrow> 8 word list \<Rightarrow> 8 word list option" where
  "decode_loop [] accum bits out = Some out"
| "decode_loop (c # cs) accum bits out =
     (if c = CHR ''='' \<or> c = CHR '' '' \<or> c = newline \<or> c = creturn
      then decode_loop cs accum bits out
      else if \<not> is_b64_char c then None
      else
        let accum1 = push_bit 6 accum OR ucast (b64_table c);
            bits1 = bits + 6
        in
          if bits1 \<ge> 8 then
            let bits2 = bits1 - 8
            in decode_loop cs accum1 bits2 (out @ [ucast (drop_bit bits2 accum1 AND 0xFF)])
          else decode_loop cs accum1 bits1 out)"

definition decode_base64 :: "string \<Rightarrow> 8 word list option" where
  "decode_base64 input = decode_loop (strip_padding input) 0 0 []"

subsection \<open>UUID validation\<close>

definition dash_pos :: "nat list" where
  "dash_pos = [8, 13, 18, 23]"

definition validate_uuid :: "string \<Rightarrow> bool" where
  "validate_uuid s0 =
     (let s = cstr s0; len = length s in
      if len \<noteq> 36 then False
      else if \<not> list_all (\<lambda>i. s ! i = CHR ''-'') dash_pos then False
      else list_all (\<lambda>i. i = 8 \<or> i = 13 \<or> i = 18 \<or> i = 23 \<or> isxdigit (s ! i)) [0..<len])"

subsection \<open>Parser state\<close>

text \<open>
  \<open>parser_t\<close>. Every function below takes the parser and returns it with its result,
  as the source mutates \<open>*p\<close>. The first argument \<open>sd\<close> is the C library's
  \<open>strtod\<close>, which the lexer calls.
\<close>

record 'f parser =
  lexer :: xcdn_lexer
  look :: "'f xcdn_token"
  has_look :: bool
  err :: "xcdn_error option"

definition parser_init :: "string \<Rightarrow> 'f parser" where
  "parser_init s = \<lparr>lexer = xcdn_lexer_init s, look = zero_token, has_look = False, err = None\<rparr>"

definition parser_bump :: "(string \<Rightarrow> 'f option) \<Rightarrow> 'f parser \<Rightarrow> 'f xcdn_token \<times> 'f parser" where
  "parser_bump sd p =
     (if has_look p then (look p, p\<lparr>has_look := False, look := zero_token\<rparr>)
      else
        (case xcdn_lexer_next sd (lexer p) of
           (t, e, lx) \<Rightarrow> (t, p\<lparr>lexer := lx, err := e\<rparr>)))"

definition parser_peek_type ::
  "(string \<Rightarrow> 'f option) \<Rightarrow> 'f parser \<Rightarrow> xcdn_token_type \<times> 'f parser" where
  "parser_peek_type sd p =
     (if \<not> has_look p then
        (case xcdn_lexer_next sd (lexer p) of
           (t, e, lx) \<Rightarrow> (tok_type t, p\<lparr>lexer := lx, err := e, look := t, has_look := True\<rparr>))
      else (tok_type (look p), p))"

definition parser_expect ::
  "(string \<Rightarrow> 'f option) \<Rightarrow> 'f parser \<Rightarrow> xcdn_token_type \<Rightarrow> 'f xcdn_token \<times> 'f parser" where
  "parser_expect sd p kind =
     (case parser_bump sd p of
        (t, p1) \<Rightarrow>
          if tok_type t \<noteq> kind
          then (zero_token, p1\<lparr>err := Some (Error XCDN_ERR_EXPECTED (tok_span t))\<rparr>)
          else (t, p1))"

text \<open>\<open>t.data.string_val\<close> of a token: its bytes (\<open>str\<close>, \<open>len\<close>).\<close>

definition string_val :: "'f xcdn_token \<Rightarrow> string" where
  "string_val t = (case tok_data t of String_Val s \<Rightarrow> s | _ \<Rightarrow> [])"

definition int_val :: "'f xcdn_token \<Rightarrow> int" where
  "int_val t = (case tok_data t of Int_Val i \<Rightarrow> i | _ \<Rightarrow> 0)"

definition parse_ident_string ::
  "(string \<Rightarrow> 'f option) \<Rightarrow> 'f parser \<Rightarrow> string option \<times> 'f parser" where
  "parse_ident_string sd p =
     (case parser_bump sd p of
        (t, p1) \<Rightarrow>
          if tok_type t = XCDN_TOK_IDENT then (Some (string_val t), p1)
          else (None, p1\<lparr>err := Some (Error XCDN_ERR_EXPECTED (tok_span t))\<rparr>))"

definition parse_key ::
  "(string \<Rightarrow> 'f option) \<Rightarrow> 'f parser \<Rightarrow> string option \<times> 'f parser" where
  "parse_key sd p =
     (case parser_bump sd p of
        (t, p1) \<Rightarrow>
          if tok_type t = XCDN_TOK_IDENT \<or> tok_type t = XCDN_TOK_STRING then (Some (string_val t), p1)
          else (None, p1\<lparr>err := Some (Error XCDN_ERR_EXPECTED (tok_span t))\<rparr>))"

subsection \<open>Values, objects, arrays and nodes\<close>

text \<open>
  The four mutually recursive functions \<open>parse_value\<close>, \<open>parse_object\<close>,
  \<open>parse_array\<close> and \<open>parse_node\<close>. A function returns a pointer, \<open>NULL\<close> on
  failure: here the \<open>option\<close> paired with the parser. Each \<open>for (;;)\<close> loop is a
  recursive function over the loop state: \<open>parse_object_loop\<close> and
  \<open>parse_array_loop\<close> carry the object or array built so far, \<open>parse_node_loop\<close> the
  node with the decorations gathered so far (after the loop it parses the value), and
  \<open>parse_args_loop\<close> is the inner loop over the arguments of an annotation.
  \<open>parse_node\<close> starts its loop on \<open>xcdn_node_new(NULL)\<close>.

  Recursion is bounded by a fuel argument that every call and every loop iteration
  decrements; the outer \<open>None\<close> is "out of fuel" and stands for no behaviour of the
  source.
\<close>

fun parse_value ::
      "(string \<Rightarrow> 'f option) \<Rightarrow> nat \<Rightarrow> 'f parser \<Rightarrow> ('f xcdn_value option \<times> 'f parser) option"
  and parse_object_loop ::
      "(string \<Rightarrow> 'f option) \<Rightarrow> nat \<Rightarrow> 'f parser \<Rightarrow> 'f xcdn_value
        \<Rightarrow> ('f xcdn_value option \<times> 'f parser) option"
  and parse_array_loop ::
      "(string \<Rightarrow> 'f option) \<Rightarrow> nat \<Rightarrow> 'f parser \<Rightarrow> 'f xcdn_value
        \<Rightarrow> ('f xcdn_value option \<times> 'f parser) option"
  and parse_node_loop ::
      "(string \<Rightarrow> 'f option) \<Rightarrow> nat \<Rightarrow> 'f parser \<Rightarrow> 'f xcdn_node
        \<Rightarrow> ('f xcdn_node option \<times> 'f parser) option"
  and parse_args_loop ::
      "(string \<Rightarrow> 'f option) \<Rightarrow> nat \<Rightarrow> 'f parser \<Rightarrow> 'f xcdn_node
        \<Rightarrow> ('f xcdn_node option \<times> 'f parser) option"
where
  "parse_value sd 0 p = None"
| "parse_value sd (Suc n) p =
     (case parser_bump sd p of
        (t, p1) \<Rightarrow>
          if err p1 \<noteq> None then Some (None, p1)
          else
            (case tok_type t of
               XCDN_TOK_LBRACE \<Rightarrow> parse_object_loop sd n p1 (XCDN_VAL_OBJECT [])
             | XCDN_TOK_LBRACKET \<Rightarrow> parse_array_loop sd n p1 (XCDN_VAL_ARRAY [])
             | XCDN_TOK_STRING \<Rightarrow> Some (Some (xcdn_value_string_owned (string_val t)), p1)
             | XCDN_TOK_TRIPLE_STRING \<Rightarrow> Some (Some (xcdn_value_string_owned (string_val t)), p1)
             | XCDN_TOK_TRUE \<Rightarrow> Some (Some (XCDN_VAL_BOOL True), p1)
             | XCDN_TOK_FALSE \<Rightarrow> Some (Some (XCDN_VAL_BOOL False), p1)
             | XCDN_TOK_NULL \<Rightarrow> Some (Some XCDN_VAL_NULL, p1)
             | XCDN_TOK_INT \<Rightarrow> Some (Some (XCDN_VAL_INT (int_val t)), p1)
             | XCDN_TOK_FLOAT \<Rightarrow>
                 (case tok_data t of
                    Float_Val fv \<Rightarrow> Some (Some (XCDN_VAL_FLOAT fv), p1)
                  | _ \<Rightarrow> Some (None, p1))
             | XCDN_TOK_D_QUOTED \<Rightarrow> Some (Some (xcdn_value_decimal (string_val t)), p1)
             | XCDN_TOK_B_QUOTED \<Rightarrow>
                 (case decode_base64 (string_val t) of
                    None \<Rightarrow> Some (None, p1\<lparr>err := Some (Error XCDN_ERR_INVALID_BASE64 (tok_span t))\<rparr>)
                  | Some decoded \<Rightarrow> Some (Some (XCDN_VAL_BYTES decoded), p1))
             | XCDN_TOK_U_QUOTED \<Rightarrow>
                 if \<not> validate_uuid (string_val t)
                 then Some (None, p1\<lparr>err := Some (Error XCDN_ERR_INVALID_UUID (tok_span t))\<rparr>)
                 else Some (Some (xcdn_value_uuid (string_val t)), p1)
             | XCDN_TOK_T_QUOTED \<Rightarrow> Some (Some (xcdn_value_datetime (string_val t)), p1)
             | XCDN_TOK_R_QUOTED \<Rightarrow> Some (Some (xcdn_value_duration (string_val t)), p1)
             | _ \<Rightarrow> Some (None, p1\<lparr>err := Some (Error XCDN_ERR_EXPECTED (tok_span t))\<rparr>)))"
| "parse_object_loop sd 0 p obj = None"
| "parse_object_loop sd (Suc n) p obj =
     (if err p \<noteq> None then Some (None, p)
      else
        (case parser_peek_type sd p of
           (pk, p1) \<Rightarrow>
             if pk = XCDN_TOK_RBRACE then
               (case parser_bump sd p1 of (t, p2) \<Rightarrow> Some (Some obj, p2))
             else
               (case parse_key sd p1 of
                  (None, p2) \<Rightarrow> Some (None, p2)
                | (Some key, p2) \<Rightarrow>
                    if err p2 \<noteq> None then Some (None, p2)
                    else
                      (case parser_expect sd p2 XCDN_TOK_COLON of
                         (t, p3) \<Rightarrow>
                           if err p3 \<noteq> None then Some (None, p3)
                           else
                             (case parse_node_loop sd n p3 (xcdn_node_new None) of
                                None \<Rightarrow> None
                              | Some (None, p4) \<Rightarrow> Some (None, p4)
                              | Some (Some node, p4) \<Rightarrow>
                                  if err p4 \<noteq> None then Some (None, p4)
                                  else
                                    (case parser_peek_type sd p4 of
                                       (pk2, p5) \<Rightarrow>
                                         if pk2 = XCDN_TOK_COMMA then
                                           (case parser_bump sd p5 of
                                              (comma, p6) \<Rightarrow>
                                                parse_object_loop sd n p6 (xcdn_object_set obj key node))
                                         else parse_object_loop sd n p5 (xcdn_object_set obj key node)))))))"
| "parse_array_loop sd 0 p arr = None"
| "parse_array_loop sd (Suc n) p arr =
     (if err p \<noteq> None then Some (None, p)
      else
        (case parser_peek_type sd p of
           (pk, p1) \<Rightarrow>
             if pk = XCDN_TOK_RBRACKET then
               (case parser_bump sd p1 of (t, p2) \<Rightarrow> Some (Some arr, p2))
             else
               (case parse_node_loop sd n p1 (xcdn_node_new None) of
                  None \<Rightarrow> None
                | Some (None, p2) \<Rightarrow> Some (None, p2)
                | Some (Some node, p2) \<Rightarrow>
                    if err p2 \<noteq> None then Some (None, p2)
                    else
                      (case parser_peek_type sd p2 of
                         (pk2, p3) \<Rightarrow>
                           if pk2 = XCDN_TOK_COMMA then
                             (case parser_bump sd p3 of
                                (comma, p4) \<Rightarrow> parse_array_loop sd n p4 (xcdn_array_push arr node))
                           else parse_array_loop sd n p3 (xcdn_array_push arr node)))))"
| "parse_node_loop sd 0 p node = None"
| "parse_node_loop sd (Suc n) p node =
     (if err p \<noteq> None then Some (None, p)
      else
        (case parser_peek_type sd p of
           (pk, p1) \<Rightarrow>
             if pk = XCDN_TOK_AT then
               (case parser_bump sd p1 of
                  (at, p2) \<Rightarrow>
                    (case parse_ident_string sd p2 of
                       (None, p3) \<Rightarrow> Some (None, p3)
                     | (Some name, p3) \<Rightarrow>
                         if err p3 \<noteq> None then Some (None, p3)
                         else
                           (case parser_peek_type sd p3 of
                              (pk2, p4) \<Rightarrow>
                                if pk2 = XCDN_TOK_LPAREN then
                                  (case parser_bump sd p4 of
                                     (lp, p5) \<Rightarrow>
                                       (case parser_peek_type sd p5 of
                                          (pk3, p6) \<Rightarrow>
                                            if pk3 = XCDN_TOK_RPAREN then
                                              (case parser_bump sd p6 of
                                                 (rp, p7) \<Rightarrow>
                                                   parse_node_loop sd n p7
                                                     (xcdn_node_add_annotation node name))
                                            else
                                              (case parse_args_loop sd n p6
                                                      (xcdn_node_add_annotation node name) of
                                                 None \<Rightarrow> None
                                               | Some (None, p7) \<Rightarrow> Some (None, p7)
                                               | Some (Some node', p7) \<Rightarrow>
                                                   parse_node_loop sd n p7 node')))
                                else parse_node_loop sd n p4 (xcdn_node_add_annotation node name))))
             else if pk = XCDN_TOK_HASH then
               (case parser_bump sd p1 of
                  (hash, p2) \<Rightarrow>
                    (case parse_ident_string sd p2 of
                       (None, p3) \<Rightarrow> Some (None, p3)
                     | (Some name, p3) \<Rightarrow>
                         if err p3 \<noteq> None then Some (None, p3)
                         else parse_node_loop sd n p3 (xcdn_node_add_tag node name)))
             else
               (case parse_value sd n p1 of
                  None \<Rightarrow> None
                | Some (None, p2) \<Rightarrow> Some (None, p2)
                | Some (Some val, p2) \<Rightarrow>
                    if err p2 \<noteq> None then Some (None, p2)
                    else Some (Some (Node (tags node) (annotations node) (Some val)), p2))))"
| "parse_args_loop sd 0 p node = None"
| "parse_args_loop sd (Suc n) p node =
     (case parse_value sd n p of
        None \<Rightarrow> None
      | Some (None, p1) \<Rightarrow> Some (None, p1)
      | Some (Some v, p1) \<Rightarrow>
          if err p1 \<noteq> None then Some (None, p1)
          else
            (case parser_peek_type sd p1 of
               (next, p2) \<Rightarrow>
                 if next = XCDN_TOK_COMMA then
                   (case parser_bump sd p2 of
                      (comma, p3) \<Rightarrow> parse_args_loop sd n p3 (push_arg_last node v))
                 else if next = XCDN_TOK_RPAREN then
                   (case parser_bump sd p2 of
                      (rp, p3) \<Rightarrow> Some (Some (push_arg_last node v), p3))
                 else
                   (case parser_bump sd p2 of
                      (bad, p3) \<Rightarrow>
                        Some (None, p3\<lparr>err := Some (Error XCDN_ERR_EXPECTED (tok_span bad))\<rparr>))))"

definition parse_object ::
  "(string \<Rightarrow> 'f option) \<Rightarrow> nat \<Rightarrow> 'f parser \<Rightarrow> ('f xcdn_value option \<times> 'f parser) option" where
  "parse_object sd n p = parse_object_loop sd n p (XCDN_VAL_OBJECT [])"

definition parse_array ::
  "(string \<Rightarrow> 'f option) \<Rightarrow> nat \<Rightarrow> 'f parser \<Rightarrow> ('f xcdn_value option \<times> 'f parser) option" where
  "parse_array sd n p = parse_array_loop sd n p (XCDN_VAL_ARRAY [])"

definition parse_node ::
  "(string \<Rightarrow> 'f option) \<Rightarrow> nat \<Rightarrow> 'f parser \<Rightarrow> ('f xcdn_node option \<times> 'f parser) option" where
  "parse_node sd n p = parse_node_loop sd n p (xcdn_node_new None)"

subsection \<open>Documents\<close>

text \<open>
  \<open>parse_document\<close> in four parts: the \<open>while\<close> loop over the prolog, the loop over
  the entries of an implicit object, the loop over a stream of values, and the body that
  chooses between them.
\<close>

fun parse_prolog ::
  "(string \<Rightarrow> 'f option) \<Rightarrow> nat \<Rightarrow> 'f parser \<Rightarrow> 'f xcdn_document
    \<Rightarrow> ('f xcdn_document option \<times> 'f parser) option" where
  "parse_prolog sd 0 p doc = None"
| "parse_prolog sd (Suc n) p doc =
     (case parser_peek_type sd p of
        (pk, p1) \<Rightarrow>
          if pk \<noteq> XCDN_TOK_DOLLAR then Some (Some doc, p1)
          else if err p1 \<noteq> None then Some (None, p1)
          else
            (case parser_bump sd p1 of
               (dollar, p2) \<Rightarrow>
                 (case parse_ident_string sd p2 of
                    (None, p3) \<Rightarrow> Some (None, p3)
                  | (Some name, p3) \<Rightarrow>
                      if err p3 \<noteq> None then Some (None, p3)
                      else
                        (case parser_expect sd p3 XCDN_TOK_COLON of
                           (t, p4) \<Rightarrow>
                             if err p4 \<noteq> None then Some (None, p4)
                             else
                               (case parse_node sd n p4 of
                                  None \<Rightarrow> None
                                | Some (None, p5) \<Rightarrow> Some (None, p5)
                                | Some (Some value_node, p5) \<Rightarrow>
                                    if err p5 \<noteq> None then Some (None, p5)
                                    else
                                      (case parser_peek_type sd p5 of
                                         (pk2, p6) \<Rightarrow>
                                           if pk2 = XCDN_TOK_COMMA then
                                             (case parser_bump sd p6 of
                                                (comma, p7) \<Rightarrow>
                                                  parse_prolog sd n p7
                                                    (xcdn_document_push_directive doc name
                                                       (node_value value_node)))
                                           else
                                             parse_prolog sd n p6
                                               (xcdn_document_push_directive doc name
                                                  (node_value value_node))))))))"

fun parse_implicit_loop ::
  "(string \<Rightarrow> 'f option) \<Rightarrow> nat \<Rightarrow> 'f parser \<Rightarrow> 'f xcdn_value
    \<Rightarrow> ('f xcdn_value option \<times> 'f parser) option" where
  "parse_implicit_loop sd 0 p obj = None"
| "parse_implicit_loop sd (Suc n) p obj =
     (if err p \<noteq> None then Some (None, p)
      else
        (case parser_peek_type sd p of
           (pk, p1) \<Rightarrow>
             if pk = XCDN_TOK_COMMA then
               (case parser_bump sd p1 of (comma, p2) \<Rightarrow> parse_implicit_loop sd n p2 obj)
             else if pk = XCDN_TOK_IDENT \<or> pk = XCDN_TOK_STRING then
               (case parse_key sd p1 of
                  (None, p2) \<Rightarrow> Some (None, p2)
                | (Some key, p2) \<Rightarrow>
                    if err p2 \<noteq> None then Some (None, p2)
                    else
                      (case parser_expect sd p2 XCDN_TOK_COLON of
                         (t, p3) \<Rightarrow>
                           if err p3 \<noteq> None then Some (None, p3)
                           else
                             (case parse_node sd n p3 of
                                None \<Rightarrow> None
                              | Some (None, p4) \<Rightarrow> Some (None, p4)
                              | Some (Some nd, p4) \<Rightarrow>
                                  if err p4 \<noteq> None then Some (None, p4)
                                  else parse_implicit_loop sd n p4 (xcdn_object_set obj key nd))))
             else if pk = XCDN_TOK_EOF then Some (Some obj, p1)
             else
               (case parser_bump sd p1 of
                  (bad, p2) \<Rightarrow>
                    Some (None, p2\<lparr>err := Some (Error XCDN_ERR_EXPECTED (tok_span bad))\<rparr>))))"

fun parse_stream_loop ::
  "(string \<Rightarrow> 'f option) \<Rightarrow> nat \<Rightarrow> 'f parser \<Rightarrow> 'f xcdn_document
    \<Rightarrow> ('f xcdn_document option \<times> 'f parser) option" where
  "parse_stream_loop sd 0 p doc = None"
| "parse_stream_loop sd (Suc n) p doc =
     (case parser_peek_type sd p of
        (pk, p1) \<Rightarrow>
          if pk = XCDN_TOK_EOF then Some (Some doc, p1)
          else if err p1 \<noteq> None then Some (None, p1)
          else
            (case parse_node sd n p1 of
               None \<Rightarrow> None
             | Some (None, p2) \<Rightarrow> Some (None, p2)
             | Some (Some nd, p2) \<Rightarrow>
                 if err p2 \<noteq> None then Some (None, p2)
                 else parse_stream_loop sd n p2 (xcdn_document_push_value doc nd)))"

text \<open>The part of \<open>parse_document\<close> after the prolog.\<close>

definition parse_body ::
  "(string \<Rightarrow> 'f option) \<Rightarrow> nat \<Rightarrow> 'f parser \<Rightarrow> 'f xcdn_document
    \<Rightarrow> ('f xcdn_document option \<times> 'f parser) option" where
  "parse_body sd n p doc =
     (case parser_peek_type sd p of
        (pk, p2) \<Rightarrow>
          if pk = XCDN_TOK_IDENT \<or> pk = XCDN_TOK_STRING then
            (case parser_bump sd p2 of
               (key_tok, p3) \<Rightarrow>
                 (case parser_peek_type sd p3 of
                    (after_key, p4) \<Rightarrow>
                      if after_key = XCDN_TOK_COLON then
                        (case parser_bump sd p4 of
                           (colon, p5) \<Rightarrow>
                             (case parse_node sd n p5 of
                                None \<Rightarrow> None
                              | Some (None, p6) \<Rightarrow> Some (None, p6)
                              | Some (Some first_node, p6) \<Rightarrow>
                                  if err p6 \<noteq> None then Some (None, p6)
                                  else
                                    (case parse_implicit_loop sd n p6
                                            (xcdn_object_set (XCDN_VAL_OBJECT [])
                                               (string_val key_tok) first_node) of
                                       None \<Rightarrow> None
                                     | Some (None, p7) \<Rightarrow> Some (None, p7)
                                     | Some (Some obj, p7) \<Rightarrow>
                                         Some (Some (xcdn_document_push_value doc
                                                       (xcdn_node_new (Some obj))), p7))))
                      else if tok_type key_tok = XCDN_TOK_STRING then
                        parse_stream_loop sd n p4
                          (xcdn_document_push_value doc
                             (xcdn_node_new (Some (xcdn_value_string_owned (string_val key_tok)))))
                      else
                        Some (None, p4\<lparr>err := Some (Error XCDN_ERR_EXPECTED (tok_span key_tok))\<rparr>)))
          else if pk = XCDN_TOK_EOF then Some (Some doc, p2)
          else
            (case parse_node sd n p2 of
               None \<Rightarrow> None
             | Some (None, p3) \<Rightarrow> Some (None, p3)
             | Some (Some first, p3) \<Rightarrow>
                 if err p3 \<noteq> None then Some (None, p3)
                 else parse_stream_loop sd n p3 (xcdn_document_push_value doc first)))"

definition parse_document ::
  "(string \<Rightarrow> 'f option) \<Rightarrow> nat \<Rightarrow> 'f parser \<Rightarrow> ('f xcdn_document option \<times> 'f parser) option" where
  "parse_document sd n p =
     (case parse_prolog sd n p xcdn_document_new of
        None \<Rightarrow> None
      | Some (None, p1) \<Rightarrow> Some (None, p1)
      | Some (Some doc, p1) \<Rightarrow> parse_body sd n p1 doc)"

text \<open>
  \<open>xcdn_parse_str\<close> returns the document, or \<open>NULL\<close> with \<open>*err\<close> set when the
  parser's error is set: here \<open>Inr\<close> the result of \<open>parse_document\<close> or \<open>Inl\<close> the
  error. The fuel given to \<open>parse_document\<close> grows with the length of the text.
  \<open>xcdn_parse\<close> takes a C string and passes \<open>strlen(src)\<close> as the length.
\<close>

definition parse_fuel :: "string \<Rightarrow> nat" where
  "parse_fuel s = 4 * length s + 8"

definition xcdn_parse_str ::
  "(string \<Rightarrow> 'f option) \<Rightarrow> string \<Rightarrow> (xcdn_error + 'f xcdn_document option) option" where
  "xcdn_parse_str sd s =
     (case parse_document sd (parse_fuel s) (parser_init s) of
        None \<Rightarrow> None
      | Some (doc, p) \<Rightarrow>
          (case err p of
             Some e \<Rightarrow> Some (Inl e)
           | None \<Rightarrow> Some (Inr doc)))"

definition xcdn_parse ::
  "(string \<Rightarrow> 'f option) \<Rightarrow> string \<Rightarrow> (xcdn_error + 'f xcdn_document option) option" where
  "xcdn_parse sd s = xcdn_parse_str sd (cstr s)"

section \<open>Serializer (ser.h, ser.c)\<close>

text \<open>
  The string buffer \<open>sbuf_t\<close> only grows: every \<open>write_\<close> function is modelled by the
  text it appends. The C library's \<open>printf\<close> conversions are \<open>fmt_d\<close> (\<open>%lld\<close>, as
  \<open>PRId64\<close>), \<open>fmt_04X\<close> (\<open>%04X\<close>) and the parameter \<open>fg\<close> (\<open>%g\<close>).
\<close>

record xcdn_format =
  pretty :: bool
  indent :: int
  trailing_commas :: bool

definition xcdn_format_default :: xcdn_format where
  "xcdn_format_default = \<lparr>pretty = True, indent = 2, trailing_commas = True\<rparr>"

definition xcdn_format_compact :: xcdn_format where
  "xcdn_format_compact = \<lparr>pretty = False, indent = 0, trailing_commas = False\<rparr>"

function show_nat :: "nat \<Rightarrow> string" where
  "show_nat n =
     (if n < 10 then [char_of (48 + n)]
      else show_nat (n div 10) @ [char_of (48 + n mod 10)])"
  by pat_completeness auto
termination
  by (relation "measure (\<lambda>n. n)") auto

declare show_nat.simps [simp del]

definition fmt_d :: "int \<Rightarrow> string" where
  "fmt_d i = (if i < 0 then CHR ''-'' # show_nat (nat (- i)) else show_nat (nat i))"

definition hex_digit :: "nat \<Rightarrow> char" where
  "hex_digit n = (if n < 10 then char_of (48 + n) else char_of (55 + n))"

definition fmt_04X :: "nat \<Rightarrow> string" where
  "fmt_04X n =
     [hex_digit (n div 4096 mod 16), hex_digit (n div 256 mod 16),
      hex_digit (n div 16 mod 16), hex_digit (n mod 16)]"

subsection \<open>Base64 encoder\<close>

definition b64_chars :: string where
  "b64_chars = ''ABCDEFGHIJKLMNOPQRSTUVWXYZabcdefghijklmnopqrstuvwxyz0123456789+/''"

definition b64_char :: "32 word \<Rightarrow> char" where
  "b64_char n = b64_chars ! unat (n AND 0x3F)"

fun b64_encode :: "8 word list \<Rightarrow> string" where
  "b64_encode (d0 # d1 # d2 # rest) =
     (let n = push_bit 16 (ucast d0) OR push_bit 8 (ucast d1) OR ucast d2 :: 32 word in
      [b64_char (drop_bit 18 n), b64_char (drop_bit 12 n), b64_char (drop_bit 6 n), b64_char n]
        @ b64_encode rest)"
| "b64_encode [d0, d1] =
     (let n = push_bit 16 (ucast d0) OR push_bit 8 (ucast d1) :: 32 word in
      [b64_char (drop_bit 18 n), b64_char (drop_bit 12 n), b64_char (drop_bit 6 n), CHR ''=''])"
| "b64_encode [d0] =
     (let n = push_bit 16 (ucast d0) :: 32 word in
      [b64_char (drop_bit 18 n), b64_char (drop_bit 12 n), CHR ''='', CHR ''=''])"
| "b64_encode [] = []"

subsection \<open>Helpers\<close>

definition is_simple_ident :: "string \<Rightarrow> bool" where
  "is_simple_ident s0 =
     (case cstr s0 of
        [] \<Rightarrow> False
      | c # cs \<Rightarrow>
          if \<not> ((CHR ''a'' \<le> c \<and> c \<le> CHR ''z'') \<or> (CHR ''A'' \<le> c \<and> c \<le> CHR ''Z'') \<or> c = CHR ''_'')
          then False
          else list_all (\<lambda>c. (CHR ''a'' \<le> c \<and> c \<le> CHR ''z'') \<or> (CHR ''A'' \<le> c \<and> c \<le> CHR ''Z'')
                    \<or> (CHR ''0'' \<le> c \<and> c \<le> CHR ''9'') \<or> c = CHR ''_'' \<or> c = CHR ''-'') cs)"

definition write_indent :: "int \<Rightarrow> int \<Rightarrow> string" where
  "write_indent depth space = replicate (nat (depth * space)) (CHR '' '')"

definition escape_char :: "char \<Rightarrow> string" where
  "escape_char ch =
     (if ch = bslash then [bslash, bslash]
      else if ch = dquote then [bslash, dquote]
      else if ch = newline then [bslash, CHR ''n'']
      else if ch = creturn then [bslash, CHR ''r'']
      else if ch = tabchar then [bslash, CHR ''t'']
      else if of_char ch < (32 :: nat) then [bslash, CHR ''u''] @ fmt_04X (of_char ch)
      else [ch])"

definition write_escaped_string :: "string \<Rightarrow> string" where
  "write_escaped_string s = [dquote] @ concat (map escape_char (cstr s)) @ [dquote]"

definition write_key :: "string \<Rightarrow> string" where
  "write_key k = (if is_simple_ident k then cstr k else write_escaped_string k)"

definition write_tag :: "string \<Rightarrow> string" where
  "write_tag t = CHR ''#'' # cstr t"

subsection \<open>Values and nodes\<close>

text \<open>
  \<open>write_value\<close>, \<open>write_node\<close> and \<open>write_annotation\<close>. A \<open>for\<close> loop over the
  items of an array, the entries of an object or the arguments of an annotation is the
  concatenation, over the indices \<open>i\<close>, of what one iteration appends; the text of the
  item itself (the recursive call) is computed first and paired with its index.
\<close>

fun write_value :: "('f \<Rightarrow> string) \<Rightarrow> 'f xcdn_value \<Rightarrow> xcdn_format \<Rightarrow> int \<Rightarrow> string"
  and write_annotation :: "('f \<Rightarrow> string) \<Rightarrow> 'f xcdn_annotation \<Rightarrow> string"
  and write_node :: "('f \<Rightarrow> string) \<Rightarrow> 'f xcdn_node \<Rightarrow> xcdn_format \<Rightarrow> int \<Rightarrow> string"
where
  "write_value fg XCDN_VAL_NULL fmt depth = ''null''"
| "write_value fg (XCDN_VAL_BOOL b) fmt depth = (if b then ''true'' else ''false'')"
| "write_value fg (XCDN_VAL_INT i) fmt depth = fmt_d i"
| "write_value fg (XCDN_VAL_FLOAT d) fmt depth = fg d"
| "write_value fg (XCDN_VAL_DECIMAL s) fmt depth = [CHR ''d'', dquote] @ cstr s @ [dquote]"
| "write_value fg (XCDN_VAL_STRING s) fmt depth = write_escaped_string s"
| "write_value fg (XCDN_VAL_BYTES data) fmt depth = [CHR ''b'', dquote] @ b64_encode data @ [dquote]"
| "write_value fg (XCDN_VAL_DATETIME s) fmt depth = [CHR ''t'', dquote] @ cstr s @ [dquote]"
| "write_value fg (XCDN_VAL_DURATION s) fmt depth = [CHR ''r'', dquote] @ cstr s @ [dquote]"
| "write_value fg (XCDN_VAL_UUID s) fmt depth = [CHR ''u'', dquote] @ cstr s @ [dquote]"
| "write_value fg (XCDN_VAL_ARRAY items) fmt depth =
     ''[''
     @ (if pretty fmt \<and> length items > 0 then [newline] else [])
     @ concat (map (\<lambda>(i, item_text).
          (if pretty fmt then write_indent (depth + 1) (indent fmt) else [])
          @ item_text
          @ (if i + 1 < length items \<or> trailing_commas fmt then '','' else [])
          @ (if pretty fmt then [newline] else []))
          (enumerate 0 (map (\<lambda>item. write_node fg item fmt (depth + 1)) items)))
     @ (if pretty fmt \<and> length items > 0 then write_indent depth (indent fmt) else [])
     @ '']''"
| "write_value fg (XCDN_VAL_OBJECT entries) fmt depth =
     ''{''
     @ (if pretty fmt \<and> length entries > 0 then [newline] else [])
     @ concat (map (\<lambda>(i, key, node_text).
          (if pretty fmt then write_indent (depth + 1) (indent fmt) else [])
          @ write_key key
          @ '': ''
          @ node_text
          @ (if i + 1 < length entries \<or> trailing_commas fmt then '','' else [])
          @ (if pretty fmt then [newline] else []))
          (enumerate 0 (map (\<lambda>e. (fst e, write_node fg (snd e) fmt (depth + 1))) entries)))
     @ (if pretty fmt \<and> length entries > 0 then write_indent depth (indent fmt) else [])
     @ ''}''"
| "write_annotation fg (Annotation name args) =
     CHR ''@'' # cstr name
     @ (if length args > 0 then
          ''(''
          @ concat (map (\<lambda>(i, arg_text). (if i > 0 then '', '' else []) @ arg_text)
               (enumerate 0 (map (\<lambda>arg. write_value fg arg xcdn_format_compact 0) args)))
          @ '')''
        else [])"
| "write_node fg (Node tgs anns val) fmt depth =
     concat (map (\<lambda>a. write_annotation fg a @ '' '') anns)
     @ concat (map (\<lambda>t. write_tag t @ '' '') tgs)
     @ (case val of None \<Rightarrow> ''null'' | Some v \<Rightarrow> write_value fg v fmt depth)"

subsection \<open>Documents\<close>

definition write_directive :: "('f \<Rightarrow> string) \<Rightarrow> xcdn_format \<Rightarrow> nat \<times> 'f xcdn_directive \<Rightarrow> string" where
  "write_directive fg fmt = (\<lambda>(i, d).
     (if i > 0 \<and> pretty fmt then [newline] else [])
     @ CHR ''$'' # cstr (dir_name d)
     @ '': ''
     @ (case dir_value d of None \<Rightarrow> ''null'' | Some v \<Rightarrow> write_value fg v fmt 0)
     @ (if trailing_commas fmt then '','' else [])
     @ [newline])"

definition xcdn_to_string_with_format :: "('f \<Rightarrow> string) \<Rightarrow> 'f xcdn_document \<Rightarrow> xcdn_format \<Rightarrow> string" where
  "xcdn_to_string_with_format fg doc fmt =
     concat (map (write_directive fg fmt) (enumerate 0 (doc_prolog doc)))
     @ concat (map (\<lambda>(i, node).
          (if i > 0 \<and> pretty fmt then [newline] else [])
          @ write_node fg node fmt 0
          @ (if i + 1 < length (doc_values doc) \<and> pretty fmt then [newline] else []))
          (enumerate 0 (doc_values doc)))"

definition xcdn_to_string_pretty :: "('f \<Rightarrow> string) \<Rightarrow> 'f xcdn_document \<Rightarrow> string" where
  "xcdn_to_string_pretty fg doc = xcdn_to_string_with_format fg doc xcdn_format_default"

definition xcdn_to_string_compact :: "('f \<Rightarrow> string) \<Rightarrow> 'f xcdn_document \<Rightarrow> string" where
  "xcdn_to_string_compact fg doc = xcdn_to_string_with_format fg doc xcdn_format_compact"

section \<open>Properties\<close>

subsection \<open>Lexer positions\<close>

text \<open>
  \<open>lex_at lx s\<close>: the unread input of the lexer is \<open>s\<close>. \<open>bump_n n lx\<close> is the lexer
  after \<open>n\<close> calls of \<open>lex_bump\<close>.
\<close>

definition lex_at :: "xcdn_lexer \<Rightarrow> string \<Rightarrow> bool" where
  "lex_at lx s \<longleftrightarrow> idx lx \<le> length (src lx) \<and> drop (idx lx) (src lx) = s"

fun bump_n :: "nat \<Rightarrow> xcdn_lexer \<Rightarrow> xcdn_lexer" where
  "bump_n 0 lx = lx"
| "bump_n (Suc n) lx = bump_n n (snd (lex_bump lx))"

lemma lex_at_Cons_idx: "lex_at lx (c # s) \<Longrightarrow> idx lx < length (src lx) \<and> src lx ! idx lx = c"
  unfolding lex_at_def
  by (metis Cons_nth_drop_Suc drop_all list.distinct(1) list.inject not_le)

lemma lex_at_Nil_idx: "lex_at lx [] \<Longrightarrow> idx lx \<ge> length (src lx)"
  unfolding lex_at_def by simp

lemma lex_peek_at_Cons: "lex_at lx (c # s) \<Longrightarrow> lex_peek lx = Some c"
  using lex_at_Cons_idx [of lx c s] by (simp add: lex_peek_def)

lemma lex_peek_at_Nil: "lex_at lx [] \<Longrightarrow> lex_peek lx = None"
  using lex_at_Nil_idx [of lx] by (simp add: lex_peek_def)

lemma lex_peek_at_1: "lex_at lx (c # d # s) \<Longrightarrow> lex_peek_at lx 1 = Some d"
  unfolding lex_at_def lex_peek_at_def Let_def
  by (metis (no_types, lifting) Cons_nth_drop_Suc Suc_eq_plus1 drop_all list.distinct(1) list.inject not_le drop_Suc tl_drop list.sel(3))

lemma lex_bump_at:
  assumes "lex_at lx (c # s)"
  shows "fst (lex_bump lx) = Some c" and "lex_at (snd (lex_bump lx)) s"
    and "idx (snd (lex_bump lx)) = idx lx + 1"
proof -
  from lex_at_Cons_idx [OF assms] have i: "idx lx < length (src lx)" and c: "src lx ! idx lx = c"
    by simp_all
  from i c show "fst (lex_bump lx) = Some c" by (simp add: lex_bump_def Let_def)
  from i show "idx (snd (lex_bump lx)) = idx lx + 1" by (simp add: lex_bump_idx)
  from assms have "drop (Suc (idx lx)) (src lx) = s"
    unfolding lex_at_def by (metis drop_Suc tl_drop list.sel(3))
  with i show "lex_at (snd (lex_bump lx)) s"
    by (simp add: lex_at_def lex_bump_idx)
qed

lemma lex_bump_at_eq:
  "lex_at lx (c # s) \<Longrightarrow> lex_bump lx = (Some c, snd (lex_bump lx))"
  using lex_bump_at(1) [of lx c s] by (cases "lex_bump lx") simp

lemma bump_n_at:
  "lex_at lx (s @ r) \<Longrightarrow> lex_at (bump_n (length s) lx) r"
proof (induction s arbitrary: lx)
  case Nil
  then show ?case by simp
next
  case (Cons c s)
  then have "lex_at (snd (lex_bump lx)) (s @ r)" using lex_bump_at(2) [of lx c "s @ r"] by simp
  from Cons.IH [OF this] show ?case by simp
qed

lemma bump_n_src [simp]: "src (bump_n n lx) = src lx"
  by (induction n arbitrary: lx) simp_all

lemma bump_n_add: "bump_n (m + n) lx = bump_n n (bump_n m lx)"
  by (induction m arbitrary: lx) simp_all

lemma bump_n_Suc_right: "bump_n (Suc n) lx = snd (lex_bump (bump_n n lx))"
  using bump_n_add [of n 1 lx] by simp


lemma lex_bump_bounded:
  "idx lx \<le> length (src lx) \<Longrightarrow> idx (snd (lex_bump lx)) \<le> length (src lx)"
  by (simp add: lex_bump_idx)

lemma number_loop_mono:
  "number_loop lx d e g = (lx', d', e', g') \<Longrightarrow>
     src lx' = src lx \<and> idx lx \<le> idx lx' \<and> (idx lx \<le> length (src lx) \<longrightarrow> idx lx' \<le> length (src lx))"
proof (induction lx d e g rule: number_loop.induct)
  case (1 lx has_dot has_exp has_digit)
  show ?case
  proof (cases "lex_peek lx")
    case None
    with "1.prems" show ?thesis by (subst (asm) number_loop.simps) simp
  next
    case (Some p)
    let ?b = "snd (lex_bump lx)"
    have b: "src ?b = src lx" "idx lx \<le> idx ?b" "idx lx \<le> length (src lx) \<longrightarrow> idx ?b \<le> length (src lx)"
      by (simp_all add: lex_bump_idx)
    have bb: "src (snd (lex_bump ?b)) = src lx" "idx lx \<le> idx (snd (lex_bump ?b))"
      "idx lx \<le> length (src lx) \<longrightarrow> idx (snd (lex_bump ?b)) \<le> length (src lx)"
      by (simp_all add: lex_bump_idx)
    consider (digit) "CHR ''0'' \<le> p \<and> p \<le> CHR ''9''"
      | (dot) "\<not> (CHR ''0'' \<le> p \<and> p \<le> CHR ''9'')" "p = CHR ''.'' \<and> \<not> has_dot \<and> \<not> has_exp"
      | (exp) "\<not> (CHR ''0'' \<le> p \<and> p \<le> CHR ''9'')" "\<not> (p = CHR ''.'' \<and> \<not> has_dot \<and> \<not> has_exp)"
          "(p = CHR ''e'' \<or> p = CHR ''E'') \<and> \<not> has_exp"
      | (stop) "\<not> (CHR ''0'' \<le> p \<and> p \<le> CHR ''9'')" "\<not> (p = CHR ''.'' \<and> \<not> has_dot \<and> \<not> has_exp)"
          "\<not> ((p = CHR ''e'' \<or> p = CHR ''E'') \<and> \<not> has_exp)"
      by blast
    then show ?thesis
    proof cases
      case digit
      with Some "1.prems" have "number_loop ?b has_dot has_exp True = (lx', d', e', g')"
        by (subst (asm) number_loop.simps) simp
      from "1.IH"(1) [OF Some digit this] b show ?thesis by auto
    next
      case dot
      with Some "1.prems" have "number_loop ?b True has_exp has_digit = (lx', d', e', g')"
        by (subst (asm) number_loop.simps) simp
      from "1.IH"(2) [OF Some dot this] b show ?thesis by auto
    next
      case exp
      define lx2 where "lx2 = (if lex_peek ?b = Some (CHR ''+'') \<or> lex_peek ?b = Some (CHR ''-'')
                       then snd (lex_bump ?b) else ?b)"
      from exp Some "1.prems" have "number_loop lx2 has_dot True has_digit = (lx', d', e', g')"
        by (subst (asm) number_loop.simps) (auto simp: Let_def lx2_def split: if_splits)
      from "1.IH"(3) [OF Some exp refl refl lx2_def this]
      have "src lx' = src lx2 \<and> idx lx2 \<le> idx lx' \<and> (idx lx2 \<le> length (src lx2) \<longrightarrow> idx lx' \<le> length (src lx2))" .
      moreover have "src lx2 = src lx" "idx lx \<le> idx lx2"
        "idx lx \<le> length (src lx) \<longrightarrow> idx lx2 \<le> length (src lx)"
        using b bb by (auto simp: lx2_def)
      ultimately show ?thesis by auto
    next
      case stop
      with Some "1.prems" show ?thesis by (subst (asm) number_loop.simps) auto
    qed
  qed
qed

lemma scan_number_mono:
  "scan_number lx0 = (lx, d, e, g) \<Longrightarrow>
     src lx = src lx0 \<and> idx lx0 \<le> idx lx \<and> (idx lx0 \<le> length (src lx0) \<longrightarrow> idx lx \<le> length (src lx0))"
proof -
  assume a: "scan_number lx0 = (lx, d, e, g)"
  define lx1 where "lx1 = (if lex_peek lx0 = Some (CHR ''+'') \<or> lex_peek lx0 = Some (CHR ''-'')
      then snd (lex_bump lx0) else lx0)"
  from a have "number_loop lx1 False False False = (lx, d, e, g)"
    by (simp add: scan_number_def Let_def lx1_def)
  from number_loop_mono [OF this]
  have "src lx = src lx1 \<and> idx lx1 \<le> idx lx \<and> (idx lx1 \<le> length (src lx1) \<longrightarrow> idx lx \<le> length (src lx1))" .
  moreover have "src lx1 = src lx0" "idx lx0 \<le> idx lx1"
    "idx lx0 \<le> length (src lx0) \<longrightarrow> idx lx1 \<le> length (src lx0)"
    by (auto simp: lx1_def lex_bump_idx)
  ultimately show ?thesis by auto
qed

lemma scan_number_no_progress_past_end:
  "scan_number lx0 = (lx, d, e, g) \<Longrightarrow> length (src lx0) < idx lx0 \<Longrightarrow> lx = lx0"
  by (subst (asm) scan_number_def) (simp add: Let_def lex_peek_def number_loop.simps)

subsection \<open>Numeric lexemes longer than the conversion buffer\<close>

text \<open>
  Claim C9. Let the scan of \<open>read_number\<close> find a digit, and let \<open>lexeme\<close> be the bytes
  it consumed (the input from the start of the token to the position where the scan
  stopped). The lexer is left after the whole lexeme. The text converted is the lexeme
  itself when it has at most 127 bytes, and its first 127 bytes when it has 128 bytes or
  more: the value of the token and the range check are those of the truncated text.
\<close>

theorem read_number_truncates:
  assumes "scan_number lx0 = (lx, has_dot, has_exp, True)"
    and "lexeme = take (idx lx - idx lx0) (drop (idx lx0) (src lx0))"
  shows "src lx = src lx0 \<and> length lexeme = idx lx - idx lx0 \<and> idx lx0 \<le> idx lx \<and>
     read_number sd lx0 =
       (convert_number sd (has_dot \<or> has_exp)
          (if length lexeme \<ge> 128 then take 127 lexeme else lexeme) (lex_span lx), lx)"
proof -
  from scan_number_mono [OF assms(1)]
  have s: "src lx = src lx0" and m: "idx lx0 \<le> idx lx"
    and bnd: "idx lx0 \<le> length (src lx0) \<longrightarrow> idx lx \<le> length (src lx0)" by simp_all
  have len: "length lexeme = idx lx - idx lx0"
  proof (cases "idx lx0 \<le> length (src lx0)")
    case True
    with bnd m show ?thesis by (simp add: assms(2))
  next
    case False
    then have "lx = lx0" using scan_number_no_progress_past_end [OF assms(1)] by simp
    then show ?thesis by (simp add: assms(2))
  qed
  have t: "take (if 128 \<le> idx lx - idx lx0 then 128 - 1 else idx lx - idx lx0) (drop (idx lx0) (src lx0))
      = (if length lexeme \<ge> 128 then take 127 lexeme else lexeme)"
    by (simp add: len assms(2) min_def)
  have "read_number sd lx0 =
       (convert_number sd (has_dot \<or> has_exp)
          (if length lexeme \<ge> 128 then take 127 lexeme else lexeme) (lex_span lx), lx)"
    unfolding read_number_def Let_def using assms(1) s t by simp
  with s len m show ?thesis by simp
qed


theorem read_number_truncates_witness:
  "read_number (\<lambda>s. None :: unit option) (xcdn_lexer_init (replicate 127 (CHR ''0'') @ ''5''))
     = (Inr (Int_Val 0), \<lparr>src = replicate 127 (CHR ''0'') @ ''5'', idx = 128, line = 1, col = 129\<rparr>)
   \<and> convert_number (\<lambda>s. None :: unit option) False (replicate 127 (CHR ''0'') @ ''5'') (Span 128 1 129)
     = Inr (Int_Val 5)"
proof -
  let ?s = "replicate 127 (CHR ''0'') @ ''5''"
  let ?sd = "\<lambda>s. None :: unit option"
  have h: "scan_number (xcdn_lexer_init ?s)
      = (\<lparr>src = ?s, idx = 128, line = 1, col = 129\<rparr>, False, False, True)"
    by code_simp
  have c: "convert_number ?sd False (take 127 ?s) (Span 128 1 129) = Inr (Int_Val 0)"
    by code_simp
  have d: "convert_number ?sd False ?s (Span 128 1 129) = Inr (Int_Val 5)"
    by code_simp
  from read_number_truncates [OF h refl, of ?sd] c d show ?thesis
    by (simp add: xcdn_lexer_init_def lex_span_def)
qed

subsection \<open>Integer literals at the bounds of 64 bits\<close>

lemma idx_bump_n_at: "lex_at lx (s @ r) \<Longrightarrow> idx (bump_n (length s) lx) = idx lx + length s"
proof (induction s arbitrary: lx)
  case Nil
  then show ?case by simp
next
  case (Cons c s)
  from Cons.prems have a: "lex_at (snd (lex_bump lx)) (s @ r)" "idx (snd (lex_bump lx)) = idx lx + 1"
    using lex_bump_at [of lx c "s @ r"] by simp_all
  from Cons.IH [OF a(1)] a(2) show ?case by simp
qed

lemma lex_at_take: "lex_at lx (s @ r) \<Longrightarrow> take (length s) (drop (idx lx) (src lx)) = s"
  by (simp add: lex_at_def)

lemma skip_whitespace_id:
  "lex_at lx (c # s) \<Longrightarrow> c \<noteq> CHR '' '' \<Longrightarrow> c \<noteq> tabchar \<Longrightarrow> c \<noteq> creturn \<Longrightarrow> c \<noteq> newline
     \<Longrightarrow> skip_whitespace lx = lx"
  using lex_at_Cons_idx [of lx c s] by (subst skip_whitespace.simps) simp

lemma skip_whitespace_end: "lex_at lx [] \<Longrightarrow> skip_whitespace lx = lx"
  using lex_at_Nil_idx [of lx] by (subst skip_whitespace.simps) simp

lemma skip_ws_and_comments_id:
  "lex_at lx (c # s) \<Longrightarrow> c \<noteq> CHR '' '' \<Longrightarrow> c \<noteq> tabchar \<Longrightarrow> c \<noteq> creturn \<Longrightarrow> c \<noteq> newline
     \<Longrightarrow> c \<noteq> CHR ''/'' \<Longrightarrow> skip_ws_and_comments lx = lx"
  using lex_at_Cons_idx [of lx c s]
  by (subst skip_ws_and_comments.simps) (simp add: skip_whitespace_id Let_def)

lemma skip_ws_and_comments_end: "lex_at lx [] \<Longrightarrow> skip_ws_and_comments lx = lx"
  using lex_at_Nil_idx [of lx]
  by (subst skip_ws_and_comments.simps) (simp add: skip_whitespace_end Let_def)

lemma number_loop_digits:
  "lex_at lx (ds @ rest) \<Longrightarrow> \<forall>c\<in>set ds. isdigit c \<Longrightarrow>
     number_loop lx d e g = number_loop (bump_n (length ds) lx) d e (g \<or> ds \<noteq> [])"
proof (induction ds arbitrary: lx g)
  case Nil
  then show ?case by simp
next
  case (Cons c ds)
  from Cons.prems(1) have p: "lex_peek lx = Some c" by (simp add: lex_peek_at_Cons)
  from Cons.prems(1) have a: "lex_at (snd (lex_bump lx)) (ds @ rest)"
    using lex_bump_at(2) [of lx c "ds @ rest"] by simp
  from Cons.prems(2) have dg: "CHR ''0'' \<le> c \<and> c \<le> CHR ''9''" by (simp add: isdigit_def)
  have "number_loop lx d e g = number_loop (snd (lex_bump lx)) d e True"
    using p dg by (subst number_loop.simps) simp
  also have "\<dots> = number_loop (bump_n (length ds) (snd (lex_bump lx))) d e (True \<or> ds \<noteq> [])"
    using Cons.IH [OF a, of True] Cons.prems(2) by simp
  finally show ?case by simp
qed

text \<open>
  An integer literal is an optional sign (\<open>int_sign\<close>) and decimal digits, followed by
  the end of the input or by a byte that does not continue a number (\<open>number_stop\<close>);
  \<open>literal_value\<close> is the integer it denotes.
\<close>

definition number_stop :: "string \<Rightarrow> bool" where
  "number_stop rest \<longleftrightarrow>
     rest = [] \<or> \<not> (isdigit (hd rest) \<or> hd rest = CHR ''.'' \<or> hd rest = CHR ''e'' \<or> hd rest = CHR ''E'')"

lemma number_loop_stop:
  "lex_at lx rest \<Longrightarrow> number_stop rest \<Longrightarrow> number_loop lx d e g = (lx, d, e, g)"
proof (cases rest)
  case Nil
  assume "lex_at lx rest"
  with Nil have "lex_peek lx = None" by (simp add: lex_peek_at_Nil)
  then show ?thesis by (subst number_loop.simps) simp
next
  case (Cons c r)
  assume "lex_at lx rest" and "number_stop rest"
  with Cons have "lex_peek lx = Some c"
    and "\<not> (CHR ''0'' \<le> c \<and> c \<le> CHR ''9'')" "c \<noteq> CHR ''.''" "c \<noteq> CHR ''e''" "c \<noteq> CHR ''E''"
    by (auto simp: lex_peek_at_Cons number_stop_def isdigit_def)
  then show ?thesis by (subst number_loop.simps) auto
qed

definition int_sign :: "string \<Rightarrow> bool" where
  "int_sign sign \<longleftrightarrow> sign = [] \<or> sign = ''+'' \<or> sign = ''-''"

lemma digit_not_sign: "isdigit c \<Longrightarrow> c \<noteq> CHR ''+'' \<and> c \<noteq> CHR ''-''"
  by (auto simp: isdigit_def)

lemma scan_number_int:
  assumes "lex_at lx (sign @ ds @ rest)" "int_sign sign" "ds \<noteq> []" "\<forall>c\<in>set ds. isdigit c"
    "number_stop rest"
  shows "scan_number lx = (bump_n (length (sign @ ds)) lx, False, False, True)"
proof -
  obtain c ds' where ds: "ds = c # ds'" using assms(3) by (cases ds) auto
  with assms(4) have c: "c \<noteq> CHR ''+''" "c \<noteq> CHR ''-''" using digit_not_sign [of c] by auto
  define lx1 where "lx1 = bump_n (length sign) lx"
  have at1: "lex_at lx1 (ds @ rest)" unfolding lx1_def using assms(1) by (rule bump_n_at)
  have "scan_number lx = number_loop lx1 False False False"
  proof (cases "sign = []")
    case True
    with assms(1) ds have "lex_peek lx = Some c" by (simp add: lex_peek_at_Cons)
    with c True show ?thesis by (simp add: scan_number_def lx1_def)
  next
    case False
    with assms(2) obtain sc where sc: "sign = [sc]" "sc = CHR ''+'' \<or> sc = CHR ''-''"
      by (auto simp: int_sign_def)
    with assms(1) have "lex_peek lx = Some sc" by (simp add: lex_peek_at_Cons)
    with sc show ?thesis by (auto simp: scan_number_def lx1_def)
  qed
  also have "\<dots> = number_loop (bump_n (length ds) lx1) False False (False \<or> ds \<noteq> [])"
    using at1 assms(4) by (rule number_loop_digits)
  also have "\<dots> = (bump_n (length ds) lx1, False, False, True)"
    using bump_n_at [OF at1] assms(3,5) by (simp add: number_loop_stop)
  finally show ?thesis by (simp add: lx1_def bump_n_add)
qed


definition literal_value :: "string \<Rightarrow> string \<Rightarrow> int" where
  "literal_value sign ds = (if sign = ''-'' then - dec_value ds else dec_value ds)"

lemma digit_not_space: "isdigit c \<Longrightarrow> \<not> isspace c"
  by (auto simp: isdigit_def isspace_def less_eq_char_def)

lemma takeWhile_all: "\<forall>c\<in>set xs. P c \<Longrightarrow> takeWhile P xs = xs"
  by (induction xs) auto

lemma strtoll_int:
  assumes "int_sign sign" "ds \<noteq> []" "\<forall>c\<in>set ds. isdigit c"
  shows "strtoll (sign @ ds) =
     (if literal_value sign ds > LLONG_MAX then (LLONG_MAX, True, length (sign @ ds))
      else if literal_value sign ds < LLONG_MIN then (LLONG_MIN, True, length (sign @ ds))
      else (literal_value sign ds, False, length (sign @ ds)))"
proof -
  obtain c ds' where ds: "ds = c # ds'" using assms(2) by (cases ds) auto
  with assms(3) have c: "\<not> isspace c" "c \<noteq> CHR ''+''" "c \<noteq> CHR ''-''"
    using digit_not_space [of c] digit_not_sign [of c] by auto
  from assms(1) have sg: "sign = [] \<or> sign = ''+'' \<or> sign = ''-''" by (simp add: int_sign_def)
  have e1: "takeWhile isspace (sign @ ds) = []"
    using sg c ds by (auto simp: isspace_def)
  have e2: "dropWhile isspace (sign @ ds) = sign @ ds"
    using sg c ds by (auto simp: isspace_def)
  have e3: "(sign @ ds \<noteq> [] \<and> (hd (sign @ ds) = CHR ''+'' \<or> hd (sign @ ds) = CHR ''-'')) = (sign \<noteq> [])"
    using sg c ds by auto
  have e4: "(sign @ ds \<noteq> [] \<and> hd (sign @ ds) = CHR ''-'') = (sign = ''-'')"
    using sg c ds by auto
  have e5: "(if sign \<noteq> [] then tl (sign @ ds) else sign @ ds) = ds"
    using sg by auto
  have e6: "takeWhile isdigit ds = ds" using assms(3) by (rule takeWhile_all)
  have e7: "length ([] :: string) + (if sign \<noteq> [] then 1 else 0) + length ds = length (sign @ ds)"
    using sg by auto
  show ?thesis
    unfolding strtoll_def Let_def e1 e2 e3 e4 e5 e6 e7 literal_value_def
    using assms(2) by (simp only: if_False)
qed

lemma convert_number_int:
  assumes "int_sign sign" "ds \<noteq> []" "\<forall>c\<in>set ds. isdigit c"
  shows "convert_number sd False (sign @ ds) sp =
     (if LLONG_MIN \<le> literal_value sign ds \<and> literal_value sign ds \<le> LLONG_MAX
      then Inr (Int_Val (literal_value sign ds))
      else Inl (Error XCDN_ERR_INVALID_NUMBER sp))"
  using assms(2) by (simp add: convert_number_def strtoll_int [OF assms])


lemma read_number_int:
  assumes "lex_at lx (sign @ ds @ rest)" "int_sign sign" "ds \<noteq> []" "\<forall>c\<in>set ds. isdigit c"
    "number_stop rest" "length (sign @ ds) \<le> 127"
  shows "read_number sd lx =
     (convert_number sd False (sign @ ds) (lex_span (bump_n (length (sign @ ds)) lx)),
      bump_n (length (sign @ ds)) lx)"
proof -
  let ?lx' = "bump_n (length (sign @ ds)) lx"
  have sc: "scan_number lx = (?lx', False, False, True)" using assms(1-5) by (rule scan_number_int)
  from assms(1) have at: "lex_at lx ((sign @ ds) @ rest)" by simp
  have "idx ?lx' - idx lx = length (sign @ ds)"
    using idx_bump_n_at [OF at] by simp
  then have lexeme: "take (idx ?lx' - idx lx) (drop (idx lx) (src lx)) = sign @ ds"
    using lex_at_take [OF at] by (simp only:)
  have n: "\<not> 128 \<le> length (sign @ ds)" using assms(6) by simp
  from read_number_truncates [OF sc lexeme [symmetric], of sd]
  have "read_number sd lx =
       (convert_number sd (False \<or> False)
          (if length (sign @ ds) \<ge> 128 then take 127 (sign @ ds) else sign @ ds) (lex_span ?lx'), ?lx')"
    by (rule conjunct2 [THEN conjunct2, THEN conjunct2])
  then show ?thesis by (simp only: n if_False simp_thms)
qed


lemma digit_token_start:
  assumes "CHR ''0'' \<le> c \<and> c \<le> CHR ''9''"
  shows "c \<noteq> dquote" "single_char_token c = None" "c \<noteq> CHR '' ''" "c \<noteq> tabchar"
    "c \<noteq> creturn" "c \<noteq> newline" "c \<noteq> CHR ''/''"
proof -
  from assms have r: "48 \<le> (of_char c :: nat)" by (simp add: less_eq_char_def)
  then show "c \<noteq> dquote" "c \<noteq> CHR '' ''" "c \<noteq> tabchar" "c \<noteq> creturn" "c \<noteq> newline"
    "c \<noteq> CHR ''/''" by auto
  from assms have r2: "(of_char c :: nat) \<le> 57" by (simp add: less_eq_char_def)
  from r r2 have "c \<noteq> CHR ''{''" "c \<noteq> CHR ''}''" "c \<noteq> CHR ''[''" "c \<noteq> CHR '']''" "c \<noteq> CHR ''(''"
    "c \<noteq> CHR '')''" "c \<noteq> CHR '':''" "c \<noteq> CHR '',''" "c \<noteq> CHR ''$''" "c \<noteq> CHR ''#''" "c \<noteq> CHR ''@''"
    by auto
  then show "single_char_token c = None" by (simp add: single_char_token_def)
qed


lemma sign_token_start:
  assumes "c = CHR ''+'' \<or> c = CHR ''-''"
  shows "c \<noteq> dquote" "single_char_token c = None" "c \<noteq> CHR '' ''" "c \<noteq> tabchar"
    "c \<noteq> creturn" "c \<noteq> newline" "c \<noteq> CHR ''/''"
  using assms by (auto simp: single_char_token_def)

text \<open>
  Claim C4, as amended. With the lexer at an integer literal of at most 127 bytes that
  denotes \<open>v\<close>: if \<open>- 2^63 \<le> v \<le> 2^63 - 1\<close> the lexer returns an \<open>INT\<close> token with
  value \<open>v\<close>, and otherwise it fails with \<open>INVALID_NUMBER\<close>; in both cases the
  whole literal is consumed. So the literals \<open>2^63 - 1\<close> and \<open>- (2^63 - 1)\<close> lex, and
  so does \<open>- 2^63\<close>; \<open>2^63\<close> and \<open>- (2^63 + 1)\<close> fail.
\<close>

theorem integer_literal_lexes:
  assumes "lex_at lx (sign @ ds @ rest)" "int_sign sign" "ds \<noteq> []" "\<forall>c\<in>set ds. isdigit c"
    "number_stop rest" "length (sign @ ds) \<le> 127"
  shows "xcdn_lexer_next sd lx =
     (if - (2 ^ 63) \<le> literal_value sign ds \<and> literal_value sign ds \<le> 2 ^ 63 - 1
      then (Token XCDN_TOK_INT (lex_span lx) (Int_Val (literal_value sign ds)), None,
            bump_n (length (sign @ ds)) lx)
      else (error_token,
            Some (Error XCDN_ERR_INVALID_NUMBER (lex_span (bump_n (length (sign @ ds)) lx))),
            bump_n (length (sign @ ds)) lx))"
proof -
  let ?lx' = "bump_n (length (sign @ ds)) lx"
  obtain c ds' where ds: "ds = c # ds'" using assms(3) by (cases ds) auto
  with assms(4) have c: "CHR ''0'' \<le> c \<and> c \<le> CHR ''9''" by (simp add: isdigit_def)
  from assms(2) have sg: "sign = [] \<or> sign = ''+'' \<or> sign = ''-''" by (simp add: int_sign_def)
  obtain b s where bs: "sign @ ds = b # s"
    and b: "(CHR ''0'' \<le> b \<and> b \<le> CHR ''9'') \<or> b = CHR ''+'' \<or> b = CHR ''-''"
    using sg ds c by auto
  have "b \<noteq> dquote \<and> single_char_token b = None \<and> b \<noteq> CHR '' '' \<and> b \<noteq> tabchar
    \<and> b \<noteq> creturn \<and> b \<noteq> newline \<and> b \<noteq> CHR ''/''"
  proof (cases "CHR ''0'' \<le> b \<and> b \<le> CHR ''9''")
    case True
    from digit_token_start [OF True] show ?thesis by blast
  next
    case False
    with b have "b = CHR ''+'' \<or> b = CHR ''-''" by blast
    from sign_token_start [OF this] show ?thesis by blast
  qed
  then have st: "b \<noteq> dquote" "single_char_token b = None" "b \<noteq> CHR '' ''" "b \<noteq> tabchar"
    "b \<noteq> creturn" "b \<noteq> newline" "b \<noteq> CHR ''/''"
    by blast+
  from assms(1) bs have at: "lex_at lx (b # s @ rest)" by (metis append.assoc append_Cons)
  have sk: "skip_ws_and_comments lx = lx"
    using at st(3-7) by (rule skip_ws_and_comments_id)
  have pk: "lex_peek lx = Some b" using at by (rule lex_peek_at_Cons)
  have nb: "b = CHR ''.'' \<or> b = CHR ''-'' \<or> b = CHR ''+'' \<or> (CHR ''0'' \<le> b \<and> b \<le> CHR ''9'')"
    using b by blast
  have rn: "read_number sd lx = (convert_number sd False (sign @ ds) (lex_span ?lx'), ?lx')"
    using assms by (rule read_number_int)
  have nx: "xcdn_lexer_next sd lx =
      (case read_number sd lx of
         (Inl e, lx') \<Rightarrow> (error_token, Some e, lx')
       | (Inr (Float_Val fv), lx') \<Rightarrow> (Token XCDN_TOK_FLOAT (lex_span lx) (Float_Val fv), None, lx')
       | (Inr d, lx') \<Rightarrow> (Token XCDN_TOK_INT (lex_span lx) d, None, lx'))"
    unfolding xcdn_lexer_next_def Let_def sk pk using st(1,2) nb
    by (simp only: option.case if_False if_True simp_thms)
  show ?thesis
    unfolding nx rn convert_number_int [OF assms(2-4)] LLONG_MAX_def LLONG_MIN_def
    by simp
qed


text \<open>
  Claim C4 as stated fails on the negative side: the literal \<open>-9223372036854775808\<close>,
  whose magnitude \<open>2^63\<close> is one past \<open>2^63 - 1\<close>, is in the range of \<open>strtoll\<close> and
  lexes to an \<open>INT\<close> token.
\<close>

theorem lexer_accepts_int64_min:
  "xcdn_lexer_next (\<lambda>s. None :: unit option) (xcdn_lexer_init ''-9223372036854775808'')
     = (Token XCDN_TOK_INT (Span 0 1 1) (Int_Val (- 9223372036854775808)), None,
        \<lparr>src = ''-9223372036854775808'', idx = 20, line = 1, col = 21\<rparr>)
   \<and> (9223372036854775808 :: int) = (2 ^ 63 - 1) + 1"
  by code_simp

theorem integer_literal_lexes_witness:
  "xcdn_lexer_next (\<lambda>s. None :: unit option) (xcdn_lexer_init ''-9223372036854775809'')
     = (error_token, Some (Error XCDN_ERR_INVALID_NUMBER (Span 20 1 21)),
        \<lparr>src = ''-9223372036854775809'', idx = 20, line = 1, col = 21\<rparr>)
   \<and> xcdn_lexer_next (\<lambda>s. None :: unit option) (xcdn_lexer_init ''9223372036854775807'')
     = (Token XCDN_TOK_INT (Span 0 1 1) (Int_Val 9223372036854775807), None,
        \<lparr>src = ''9223372036854775807'', idx = 19, line = 1, col = 20\<rparr>)"
proof -
  let ?sd = "\<lambda>s. None :: unit option"
  let ?a = "xcdn_lexer_init ''-9223372036854775809''"
  let ?b = "xcdn_lexer_init ''9223372036854775807''"
  have a1: "lex_at ?a (''-'' @ ''9223372036854775809'' @ [])"
    by (simp add: lex_at_def xcdn_lexer_init_def)
  have b1: "lex_at ?b ([] @ ''9223372036854775807'' @ [])"
    by (simp add: lex_at_def xcdn_lexer_init_def)
  have a2: "int_sign ''-''" and b2: "int_sign []" by (simp_all add: int_sign_def)
  have a3: "''9223372036854775809'' \<noteq> []" and b3: "''9223372036854775807'' \<noteq> []" by simp_all
  have a4: "\<forall>c\<in>set ''9223372036854775809''. isdigit c" by (simp add: isdigit_def)
  have b4: "\<forall>c\<in>set ''9223372036854775807''. isdigit c" by (simp add: isdigit_def)
  have s: "number_stop []" by (simp add: number_stop_def)
  have a6: "length (''-'' @ ''9223372036854775809'') \<le> 127" by simp
  have b6: "length ([] @ ''9223372036854775807'') \<le> 127" by simp
  have av: "literal_value ''-'' ''9223372036854775809'' = - 9223372036854775809"
    by (simp add: literal_value_def dec_value_def)
  have bv: "literal_value [] ''9223372036854775807'' = 9223372036854775807"
    by (simp add: literal_value_def dec_value_def)
  have al: "bump_n (length (''-'' @ ''9223372036854775809'')) ?a
      = \<lparr>src = ''-9223372036854775809'', idx = 20, line = 1, col = 21\<rparr>"
    by code_simp
  have bl: "bump_n (length ([] @ ''9223372036854775807'')) ?b
      = \<lparr>src = ''9223372036854775807'', idx = 19, line = 1, col = 20\<rparr>"
    by code_simp
  from integer_literal_lexes [OF a1 a2 a3 a4 s a6, of ?sd]
  have a: "xcdn_lexer_next ?sd ?a
     = (error_token, Some (Error XCDN_ERR_INVALID_NUMBER (Span 20 1 21)),
        \<lparr>src = ''-9223372036854775809'', idx = 20, line = 1, col = 21\<rparr>)"
    unfolding av al by (simp add: lex_span_def)
  from integer_literal_lexes [OF b1 b2 b3 b4 s b6, of ?sd]
  have b: "xcdn_lexer_next ?sd ?b
     = (Token XCDN_TOK_INT (Span 0 1 1) (Int_Val 9223372036854775807), None,
        \<lparr>src = ''9223372036854775807'', idx = 19, line = 1, col = 20\<rparr>)"
    unfolding bv bl by (simp add: lex_span_def xcdn_lexer_init_def)
  from a b show ?thesis by blast
qed

subsection \<open>Typed quoted literals\<close>

text \<open>
  The body of a quoted literal, as the lexer accepts it, is a sequence of items: a plain
  byte other than \<open>"\<close> and \<open>\\<close>, a two-byte escape \<open>\e\<close> with \<open>e\<close> one of
  \<open>" \ / b f n r t\<close>, or \<open>\u\<close> with four hexadecimal digits. \<open>item_source\<close> is the
  text of an item in the input; \<open>item_payload\<close> is what the claim below says the lexer
  stores for it.
\<close>

datatype str_item = Plain char | Esc char | EscU char char char char

fun item_ok :: "str_item \<Rightarrow> bool" where
  "item_ok (Plain c) \<longleftrightarrow> c \<noteq> dquote \<and> c \<noteq> bslash"
| "item_ok (Esc e) \<longleftrightarrow> e \<in> set [dquote, bslash, CHR ''/'', CHR ''b'', CHR ''f'', CHR ''n'', CHR ''r'', CHR ''t'']"
| "item_ok (EscU h1 h2 h3 h4) \<longleftrightarrow> isxdigit h1 \<and> isxdigit h2 \<and> isxdigit h3 \<and> isxdigit h4"

fun item_source :: "str_item \<Rightarrow> string" where
  "item_source (Plain c) = [c]"
| "item_source (Esc e) = [bslash, e]"
| "item_source (EscU h1 h2 h3 h4) = [bslash, CHR ''u'', h1, h2, h3, h4]"

fun item_payload :: "str_item \<Rightarrow> string" where
  "item_payload (Plain c) = [c]"
| "item_payload (Esc e) = (if e = dquote then [dquote] else if e = bslash then [bslash] else [bslash, e])"
| "item_payload (EscU h1 h2 h3 h4) = [bslash, CHR ''u'', h1, h2, h3, h4]"

definition body_source :: "str_item list \<Rightarrow> string" where
  "body_source items = concat (map item_source items)"

definition body_payload :: "str_item list \<Rightarrow> string" where
  "body_payload items = concat (map item_payload items)"

lemma bump_n_numeral [simp]:
  "bump_n (numeral k) lx = bump_n (pred_numeral k) (snd (lex_bump lx))"
  by (simp add: numeral_eq_Suc)

lemma lex_bump_atE:
  assumes "lex_at lx (c # s)"
  obtains lx1 where "lex_bump lx = (Some c, lx1)" "lex_at lx1 s" "bump_n 1 lx = lx1"
proof -
  obtain r lx1 where p: "lex_bump lx = (r, lx1)" by (cases "lex_bump lx")
  with lex_bump_at(1,2) [OF assms] have "r = Some c" "lex_at lx1 s" by simp_all
  with p that [of lx1] show ?thesis by simp
qed

lemma read_hex_at:
  "lex_at lx (hs @ s) \<Longrightarrow> \<forall>h\<in>set hs. isxdigit h \<Longrightarrow>
     read_hex (length hs) lx sb = (Some (sb @ hs), bump_n (length hs) lx)"
proof (induction hs arbitrary: lx sb)
  case Nil
  then show ?case by simp
next
  case (Cons h hs)
  from Cons.prems(1) obtain lx1 where b: "lex_bump lx = (Some h, lx1)" and a: "lex_at lx1 (hs @ s)"
    by (auto elim: lex_bump_atE)
  from Cons.IH [OF a, of "sb @ [h]"] Cons.prems(2)
  have "read_hex (length hs) lx1 (sb @ [h]) = (Some (sb @ h # hs), bump_n (length hs) lx1)"
    by simp
  with b Cons.prems(2) show ?case by simp
qed

lemma read_hex4_at:
  assumes "lex_at lx (h1 # h2 # h3 # h4 # s)" "isxdigit h1" "isxdigit h2" "isxdigit h3" "isxdigit h4"
  shows "read_hex 4 lx sb = (Some (sb @ [h1, h2, h3, h4]), bump_n 4 lx)"
proof -
  from assms(1) have "lex_at lx ([h1, h2, h3, h4] @ s)" by simp
  from read_hex_at [OF this, of sb] assms(2-5)
  have "read_hex (length [h1, h2, h3, h4]) lx sb = (Some (sb @ [h1, h2, h3, h4]), bump_n (length [h1, h2, h3, h4]) lx)"
    by simp
  moreover have "length [h1, h2, h3, h4] = 4" by simp
  ultimately show ?thesis by (simp only:)
qed

lemma read_string_loop_items:
  "lex_at lx (body_source items @ dquote # rest) \<Longrightarrow> \<forall>it\<in>set items. item_ok it \<Longrightarrow>
     read_string_loop sp lx sb =
       (Inr (sb @ body_payload items), bump_n (length (body_source items) + 1) lx)"
proof (induction items arbitrary: lx sb)
  case Nil
  then obtain lx1 where "lex_bump lx = (Some dquote, lx1)" "bump_n 1 lx = lx1"
    by (auto simp: body_source_def elim: lex_bump_atE)
  then show ?case
    by (subst read_string_loop.simps) (simp add: body_source_def body_payload_def)
next
  case (Cons it items)
  have ok: "\<forall>it\<in>set items. item_ok it" using Cons.prems(2) by simp
  show ?case
  proof (cases it)
    case (Plain c)
    with Cons.prems have c: "c \<noteq> dquote" "c \<noteq> bslash"
      and at: "lex_at lx (c # body_source items @ dquote # rest)"
      by (simp_all add: body_source_def)
    from at obtain lx1 where b: "lex_bump lx = (Some c, lx1)"
      and a1: "lex_at lx1 (body_source items @ dquote # rest)" and n: "bump_n 1 lx = lx1"
      by (auto elim: lex_bump_atE)
    have "read_string_loop sp lx sb = read_string_loop sp lx1 (sb @ [c])"
      using b c by (subst read_string_loop.simps) simp
    also have "\<dots> = (Inr ((sb @ [c]) @ body_payload items), bump_n (length (body_source items) + 1) lx1)"
      using a1 ok by (rule Cons.IH)
    finally show ?thesis
      using n Plain by (simp add: body_source_def body_payload_def)
  next
    case (Esc e)
    with Cons.prems have e: "e \<in> set [dquote, bslash, CHR ''/'', CHR ''b'', CHR ''f'', CHR ''n'', CHR ''r'', CHR ''t'']"
      and at: "lex_at lx (bslash # e # body_source items @ dquote # rest)"
      by (simp_all add: body_source_def)
    from at obtain lx1 where b1: "lex_bump lx = (Some bslash, lx1)"
      and a1: "lex_at lx1 (e # body_source items @ dquote # rest)" and n1: "bump_n 1 lx = lx1"
      by (auto elim: lex_bump_atE)
    from a1 obtain lx2 where b2: "lex_bump lx1 = (Some e, lx2)"
      and a2: "lex_at lx2 (body_source items @ dquote # rest)" and n2: "bump_n 1 lx1 = lx2"
      by (auto elim: lex_bump_atE)
    have "read_string_loop sp lx sb = read_string_loop sp lx2 (sb @ item_payload (Esc e))"
      using b1 b2 e by (subst read_string_loop.simps) auto
    also have "\<dots> = (Inr ((sb @ item_payload (Esc e)) @ body_payload items),
        bump_n (length (body_source items) + 1) lx2)"
      using a2 ok by (rule Cons.IH)
    finally show ?thesis
      using n1 n2 Esc by (simp add: body_source_def body_payload_def)
  next
    case (EscU h1 h2 h3 h4)
    with Cons.prems have h: "isxdigit h1" "isxdigit h2" "isxdigit h3" "isxdigit h4"
      and at: "lex_at lx (bslash # CHR ''u'' # h1 # h2 # h3 # h4 # body_source items @ dquote # rest)"
      by (simp_all add: body_source_def)
    from at obtain lx1 where b1: "lex_bump lx = (Some bslash, lx1)"
      and a1: "lex_at lx1 (CHR ''u'' # h1 # h2 # h3 # h4 # body_source items @ dquote # rest)"
      and n1: "bump_n 1 lx = lx1"
      by (auto elim: lex_bump_atE)
    from a1 obtain lx2 where b2: "lex_bump lx1 = (Some (CHR ''u''), lx2)"
      and a2: "lex_at lx2 (h1 # h2 # h3 # h4 # body_source items @ dquote # rest)"
      and n2: "bump_n 1 lx1 = lx2"
      by (auto elim: lex_bump_atE)
    have rh: "read_hex 4 lx2 (sb @ [bslash, CHR ''u'']) =
        (Some ((sb @ [bslash, CHR ''u'']) @ [h1, h2, h3, h4]), bump_n 4 lx2)"
      using a2 h by (rule read_hex4_at)
    have a6: "lex_at (bump_n 4 lx2) (body_source items @ dquote # rest)"
      using bump_n_at [of lx2 "[h1, h2, h3, h4]" "body_source items @ dquote # rest"] a2 by simp
    have "read_string_loop sp lx sb =
        read_string_loop sp (bump_n 4 lx2) (sb @ item_payload (EscU h1 h2 h3 h4))"
      using b1 b2 rh by (subst read_string_loop.simps) simp
    also have "\<dots> = (Inr ((sb @ item_payload (EscU h1 h2 h3 h4)) @ body_payload items),
        bump_n (length (body_source items) + 1) (bump_n 4 lx2))"
      using a6 ok by (rule Cons.IH)
    finally show ?thesis
      using n1 n2 EscU bump_n_add [of 4 "length (body_source items) + 1" lx2]
      by (simp add: body_source_def body_payload_def)
  qed
qed


lemma read_string_items:
  assumes "lex_at lx (dquote # body_source items @ dquote # rest)" "\<forall>it\<in>set items. item_ok it"
  shows "read_string lx False = (Inr (body_payload items), bump_n (length (body_source items) + 2) lx)"
proof -
  from assms(1) obtain lx1 where b: "lex_bump lx = (Some dquote, lx1)"
    and a: "lex_at lx1 (body_source items @ dquote # rest)" and n: "bump_n 1 lx = lx1"
    by (auto elim: lex_bump_atE)
  from read_string_loop_items [OF a assms(2), of "lex_span lx" "[]"] b n show ?thesis
    by (simp add: read_string_def)
qed

lemma typed_start:
  assumes "X \<in> set ''dbutr''"
  shows "X \<noteq> dquote" "single_char_token X = None" "X \<noteq> CHR '' ''" "X \<noteq> tabchar"
    "X \<noteq> creturn" "X \<noteq> newline" "X \<noteq> CHR ''/''"
    "\<not> (X = CHR ''.'' \<or> X = CHR ''-'' \<or> X = CHR ''+'' \<or> (CHR ''0'' \<le> X \<and> X \<le> CHR ''9''))"
    "X = CHR ''d'' \<or> X = CHR ''b'' \<or> X = CHR ''u'' \<or> X = CHR ''t'' \<or> X = CHR ''r''"
  using assms by (auto simp: single_char_token_def)

text \<open>
  Claim C3, as amended. With the lexer at \<open>X"\<close> (\<open>X\<close> one of \<open>d b u t r\<close>), followed
  by a body of items and the closing quote, the lexer returns the typed token of \<open>X\<close>
  with the span of \<open>X\<close>, no error, and the whole literal consumed; its payload is the body
  in which the escapes \<open>\"\<close> and \<open>\\\<close> are reduced to the bytes \<open>"\<close> and \<open>\\<close>, and
  every other escape (\<open>\/ \b \f \n \r \t \uXXXX\<close>) and every plain byte is kept as it is.
\<close>

theorem typed_literal_lexes:
  assumes "lex_at lx (X # dquote # body_source items @ dquote # rest)"
    and "X \<in> set ''dbutr''"
    and "\<forall>it\<in>set items. item_ok it"
  shows "xcdn_lexer_next sd lx =
     (Token (typed_token_type X) (lex_span lx) (String_Val (body_payload items)), None,
      bump_n (length (body_source items) + 3) lx)"
proof -
  note st = typed_start [OF assms(2)]
  have sk: "skip_ws_and_comments lx = lx"
    using assms(1) st(3-7) by (rule skip_ws_and_comments_id)
  have pk: "lex_peek lx = Some X" using assms(1) by (rule lex_peek_at_Cons)
  have pk1: "lex_peek_at lx 1 = Some dquote" using assms(1) by (rule lex_peek_at_1)
  from assms(1) obtain lx1 where b: "lex_bump lx = (Some X, lx1)"
    and a: "lex_at lx1 (dquote # body_source items @ dquote # rest)" and n: "bump_n 1 lx = lx1"
    by (auto elim: lex_bump_atE)
  have rs: "read_string (snd (lex_bump lx)) False =
      (Inr (body_payload items), bump_n (length (body_source items) + 3) lx)"
  proof -
    have "bump_n (length (body_source items) + 3) lx
        = bump_n (length (body_source items) + 2) (bump_n 1 lx)"
      by (metis bump_n_add add.commute add.assoc one_plus_numeral semiring_norm(3) numeral_One)
    with read_string_items [OF a assms(3)] b n show ?thesis by simp
  qed
  have "xcdn_lexer_next sd lx =
      (case read_string (snd (lex_bump lx)) False of
         (Inl e, lx') \<Rightarrow> (error_token, Some e, lx')
       | (Inr s, lx') \<Rightarrow> (Token (typed_token_type X) (lex_span lx) (String_Val s), None, lx'))"
    unfolding xcdn_lexer_next_def Let_def sk pk pk1 using st(1,2,8,9)
    by (simp only: option.case if_False if_True simp_thms)
  then show ?thesis unfolding rs by simp
qed

text \<open>
  Claim C3 as stated fails: escapes are not all preserved. In the literal \<open>d"1\\2"\<close>
  the body has the four bytes \<open>1\\2\<close>, and the payload of the token has three: the
  escape \<open>\\\<close> is reduced to one backslash.
\<close>

theorem typed_literal_reduces_backslash:
  "xcdn_lexer_next (\<lambda>s. None :: unit option)
       (xcdn_lexer_init ([CHR ''d'', dquote, CHR ''1'', bslash, bslash, CHR ''2'', dquote]))
     = (Token XCDN_TOK_D_QUOTED (Span 0 1 1) (String_Val [CHR ''1'', bslash, CHR ''2'']), None,
        \<lparr>src = [CHR ''d'', dquote, CHR ''1'', bslash, bslash, CHR ''2'', dquote],
         idx = 7, line = 1, col = 8\<rparr>)
   \<and> [CHR ''1'', bslash, CHR ''2''] \<noteq> [CHR ''1'', bslash, bslash, CHR ''2'']"
  by code_simp

theorem typed_literal_lexes_witness:
  "xcdn_lexer_next (\<lambda>s. None :: unit option)
       (xcdn_lexer_init ([CHR ''u'', dquote, CHR ''a'', bslash, dquote, bslash, CHR ''n'',
           bslash, CHR ''u'', CHR ''0'', CHR ''0'', CHR ''4'', CHR ''1'', bslash, bslash, dquote]))
     = (Token XCDN_TOK_U_QUOTED (Span 0 1 1)
          (String_Val [CHR ''a'', dquote, bslash, CHR ''n'',
             bslash, CHR ''u'', CHR ''0'', CHR ''0'', CHR ''4'', CHR ''1'', bslash]), None,
        \<lparr>src = [CHR ''u'', dquote, CHR ''a'', bslash, dquote, bslash, CHR ''n'',
           bslash, CHR ''u'', CHR ''0'', CHR ''0'', CHR ''4'', CHR ''1'', bslash, bslash, dquote],
         idx = 16, line = 1, col = 17\<rparr>)"
proof -
  let ?items = "[Plain (CHR ''a''), Esc dquote, Esc (CHR ''n''),
      EscU (CHR ''0'') (CHR ''0'') (CHR ''4'') (CHR ''1''), Esc bslash]"
  let ?s = "[CHR ''u'', dquote, CHR ''a'', bslash, dquote, bslash, CHR ''n'',
           bslash, CHR ''u'', CHR ''0'', CHR ''0'', CHR ''4'', CHR ''1'', bslash, bslash, dquote]"
  have h1: "lex_at (xcdn_lexer_init ?s) (CHR ''u'' # dquote # body_source ?items @ dquote # [])"
    by (simp add: lex_at_def xcdn_lexer_init_def body_source_def)
  have h2: "CHR ''u'' \<in> set ''dbutr''" by simp
  have h3: "\<forall>it\<in>set ?items. item_ok it" by (simp add: isxdigit_def)
  have l: "bump_n (length (body_source ?items) + 3) (xcdn_lexer_init ?s)
      = \<lparr>src = ?s, idx = 16, line = 1, col = 17\<rparr>"
    by code_simp
  from typed_literal_lexes [OF h1 h2 h3, of "\<lambda>s. None :: unit option"] show ?thesis
    unfolding l by (simp add: typed_token_type_def lex_span_def xcdn_lexer_init_def body_payload_def)
qed

lemma cstr_no_nul: "CHR 0x00 \<notin> set s \<Longrightarrow> cstr s = s"
  by (auto simp: cstr_def)

subsection \<open>Base64 literals\<close>

text \<open>
  Base64 in the words of the specification. The digits are the standard alphabet, with
  the value of a digit its position there, and the URL-safe \<open>-\<close> (62) and \<open>_\<close> (63).
  The bytes \<open>=\<close>, space, \<open>\n\<close> and \<open>\r\<close> are skipped wherever they stand. Every
  digit contributes six bits, most significant first; the decoded bytes are the
  successive groups of eight bits, and a last group of fewer than eight bits is dropped
  (so no padding is needed).
\<close>

definition b64_std_alphabet :: string where
  "b64_std_alphabet = ''ABCDEFGHIJKLMNOPQRSTUVWXYZabcdefghijklmnopqrstuvwxyz0123456789+/''"

definition b64_sextet :: "char \<Rightarrow> nat" where
  "b64_sextet c =
     (if c = CHR ''-'' then 62 else if c = CHR ''_'' then 63
      else length (takeWhile (\<lambda>x. x \<noteq> c) b64_std_alphabet))"

definition b64_digit :: "char \<Rightarrow> bool" where
  "b64_digit c \<longleftrightarrow> c \<in> set b64_std_alphabet \<or> c = CHR ''-'' \<or> c = CHR ''_''"

definition b64_skipped :: "char \<Rightarrow> bool" where
  "b64_skipped c \<longleftrightarrow> c = CHR ''='' \<or> c = CHR '' '' \<or> c = newline \<or> c = creturn"

definition b64_accepted :: "char \<Rightarrow> bool" where
  "b64_accepted c \<longleftrightarrow> b64_digit c \<or> b64_skipped c"

definition sextet_bits :: "nat \<Rightarrow> bool list" where
  "sextet_bits v = map (bit v) [5, 4, 3, 2, 1, 0]"

definition byte_of_bits :: "bool list \<Rightarrow> 8 word" where
  "byte_of_bits bs = horner_sum of_bool 2 (rev bs)"

function bytes_of_bits :: "bool list \<Rightarrow> 8 word list" where
  "bytes_of_bits bs =
     (if length bs < 8 then [] else byte_of_bits (take 8 bs) # bytes_of_bits (drop 8 bs))"
  by pat_completeness auto
termination
  by (relation "measure length") auto

declare bytes_of_bits.simps [simp del]

definition b64_decode_spec :: "string \<Rightarrow> 8 word list" where
  "b64_decode_spec s = bytes_of_bits (concat (map (\<lambda>c. sextet_bits (b64_sextet c)) (filter b64_digit s)))"

lemma char_in_set_by_code:
  "(of_char c :: nat) \<in> set (map of_char cs) \<Longrightarrow> c \<in> set cs"
  by auto

lemma digit_enum: "CHR ''0'' \<le> c \<Longrightarrow> c \<le> CHR ''9'' \<Longrightarrow> c \<in> set ''0123456789''"
proof -
  assume "CHR ''0'' \<le> c" "c \<le> CHR ''9''"
  then have "48 \<le> (of_char c :: nat) \<and> of_char c \<le> (57 :: nat)" by (simp add: less_eq_char_def)
  then have "(of_char c :: nat) \<in> set (map of_char ''0123456789'')" by simp arith
  then show ?thesis by (rule char_in_set_by_code)
qed

lemma upper_enum: "CHR ''A'' \<le> c \<Longrightarrow> c \<le> CHR ''Z'' \<Longrightarrow> c \<in> set ''ABCDEFGHIJKLMNOPQRSTUVWXYZ''"
proof -
  assume "CHR ''A'' \<le> c" "c \<le> CHR ''Z''"
  then have "65 \<le> (of_char c :: nat) \<and> of_char c \<le> (90 :: nat)" by (simp add: less_eq_char_def)
  then have "(of_char c :: nat) \<in> set (map of_char ''ABCDEFGHIJKLMNOPQRSTUVWXYZ'')" by simp arith
  then show ?thesis by (rule char_in_set_by_code)
qed

lemma lower_enum: "CHR ''a'' \<le> c \<Longrightarrow> c \<le> CHR ''z'' \<Longrightarrow> c \<in> set ''abcdefghijklmnopqrstuvwxyz''"
proof -
  assume "CHR ''a'' \<le> c" "c \<le> CHR ''z''"
  then have "97 \<le> (of_char c :: nat) \<and> of_char c \<le> (122 :: nat)" by (simp add: less_eq_char_def)
  then have "(of_char c :: nat) \<in> set (map of_char ''abcdefghijklmnopqrstuvwxyz'')" by simp arith
  then show ?thesis by (rule char_in_set_by_code)
qed


lemma b64_digit_table_all:
  "list_all (\<lambda>c. is_b64_char c \<and> \<not> b64_skipped c \<and> b64_table c = of_nat (b64_sextet c)
      \<and> b64_sextet c < 64) (b64_std_alphabet @ ''-_'')"
  by code_simp

lemma b64_digit_table:
  assumes "b64_digit c"
  shows "is_b64_char c" "\<not> b64_skipped c" "b64_table c = of_nat (b64_sextet c)" "b64_sextet c < 64"
proof -
  from assms have "c \<in> set (b64_std_alphabet @ ''-_'')" by (auto simp: b64_digit_def)
  with b64_digit_table_all
  have "is_b64_char c \<and> \<not> b64_skipped c \<and> b64_table c = of_nat (b64_sextet c) \<and> b64_sextet c < 64"
    unfolding list_all_iff by blast
  then show "is_b64_char c" "\<not> b64_skipped c" "b64_table c = of_nat (b64_sextet c)" "b64_sextet c < 64"
    by blast+
qed

lemma is_b64_char_digit:
  assumes "is_b64_char c" "\<not> b64_skipped c"
  shows "b64_digit c"
proof -
  from assms(2) have ne: "c \<noteq> CHR ''=''" by (simp add: b64_skipped_def)
  from assms(1) ne consider "isalnum c" | "c = CHR ''+'' \<or> c = CHR ''/''" | "c = CHR ''-'' \<or> c = CHR ''_''"
    by (auto simp: is_b64_char_def)
  then show ?thesis
  proof cases
    case 1
    then have "(CHR ''0'' \<le> c \<and> c \<le> CHR ''9'') \<or> (CHR ''a'' \<le> c \<and> c \<le> CHR ''z'')
        \<or> (CHR ''A'' \<le> c \<and> c \<le> CHR ''Z'')"
      unfolding isalnum_def .
    then have "c \<in> set ''0123456789'' \<or> c \<in> set ''abcdefghijklmnopqrstuvwxyz''
        \<or> c \<in> set ''ABCDEFGHIJKLMNOPQRSTUVWXYZ''"
      using digit_enum [of c] lower_enum [of c] upper_enum [of c] by blast
    moreover have "set ''0123456789'' \<subseteq> set b64_std_alphabet"
      "set ''abcdefghijklmnopqrstuvwxyz'' \<subseteq> set b64_std_alphabet"
      "set ''ABCDEFGHIJKLMNOPQRSTUVWXYZ'' \<subseteq> set b64_std_alphabet"
      by (simp_all add: b64_std_alphabet_def)
    ultimately show ?thesis unfolding b64_digit_def by blast
  next
    case 2
    then show ?thesis by (auto simp: b64_digit_def b64_std_alphabet_def)
  next
    case 3
    then show ?thesis by (auto simp: b64_digit_def)
  qed
qed

lemma b64_accepted_iff: "b64_accepted c \<longleftrightarrow> b64_skipped c \<or> is_b64_char c"
  using b64_digit_table(1) [of c] is_b64_char_digit [of c] by (auto simp: b64_accepted_def)


text \<open>\<open>low_bits n w\<close>: the \<open>n\<close> low bits of the accumulator, most significant first.\<close>

definition low_bits :: "nat \<Rightarrow> 32 word \<Rightarrow> bool list" where
  "low_bits n w = map (bit w) (rev [0..<n])"

lemma sextet_high_bits: "s < 64 \<Longrightarrow> 6 \<le> k \<Longrightarrow> \<not> bit (s :: nat) k"
proof -
  assume s: "s < 64" and k: "6 \<le> k"
  from k have "(2::nat) ^ 6 \<le> 2 ^ k" by (intro power_increasing) simp_all
  with s have "s < 2 ^ k" by simp
  then show ?thesis by (simp add: bit_iff_odd)
qed

lemma bit_accum_step:
  assumes "s < 64" "j < 32"
  shows "bit (push_bit 6 (a :: 32 word) OR ucast (of_nat s :: 8 word)) j
      \<longleftrightarrow> (if j < 6 then bit s j else bit a (j - 6))"
proof -
  have "bit (ucast (of_nat s :: 8 word) :: 32 word) j \<longleftrightarrow> j < 8 \<and> bit s j"
    using assms(2) by (auto simp: bit_ucast_iff bit_of_nat_iff)
  moreover have "\<not> j < 6 \<Longrightarrow> \<not> bit s j"
    using sextet_high_bits [OF assms(1), of j] by simp
  ultimately have u: "bit (ucast (of_nat s :: 8 word) :: 32 word) j \<longleftrightarrow> j < 6 \<and> bit s j"
    by (cases "j < 6") auto
  have p: "bit (push_bit 6 a) j \<longleftrightarrow> 6 \<le> j \<and> bit a (j - 6)"
    using assms(2) by (simp add: bit_push_bit_iff)
  show ?thesis by (auto simp: bit_or_iff u p)
qed

lemma low_bits_step:
  assumes "s < 64" "n + 6 \<le> 32"
  shows "low_bits (n + 6) (push_bit 6 a OR ucast (of_nat s :: 8 word)) = low_bits n a @ sextet_bits s"
proof -
  let ?x = "push_bit 6 a OR ucast (of_nat s :: 8 word) :: 32 word"
  have split: "[0..<n + 6] = [0..<6] @ map (\<lambda>k. k + 6) [0..<n]"
    by (metis add.commute upt_add_eq_append zero_le map_add_upt)
  have r6: "rev [0..<6::nat] = [5, 4, 3, 2, 1, 0]" by code_simp
  have lo: "map (bit ?x) (rev [0..<6]) = sextet_bits s"
    unfolding r6 using assms(1) by (simp add: sextet_bits_def bit_accum_step)
  have hi: "map (bit ?x) (rev (map (\<lambda>k. k + 6) [0..<n])) = map (bit a) (rev [0..<n])"
    using assms by (simp add: rev_map bit_accum_step)
  show ?thesis
    unfolding low_bits_def split rev_append map_append lo hi ..
qed

lemma low_bits_split:
  assumes "8 \<le> n"
  shows "low_bits n x = map (bit x) (rev [n - 8..<n]) @ low_bits (n - 8) x"
proof -
  from assms have "[0..<n] = [0..<n - 8] @ [n - 8..<n]"
    by (metis le_add_diff_inverse2 upt_add_eq_append zero_le add.commute)
  then show ?thesis by (simp add: low_bits_def)
qed

lemma byte_of_low_bits:
  assumes "m + 8 \<le> 32"
  shows "byte_of_bits (map (bit (x :: 32 word)) (rev [m..<m + 8])) = ucast (drop_bit m x AND 0xFF)"
proof (rule bit_word_eqI)
  fix k
  assume k: "k < LENGTH(8)"
  have ff: "(0xFF :: 32 word) = mask 8" by (simp add: mask_eq_exp_minus_1)
  have "bit (byte_of_bits (map (bit x) (rev [m..<m + 8]))) k \<longleftrightarrow> bit x (m + k)"
    using k by (simp add: byte_of_bits_def rev_map [symmetric] bit_horner_sum_bit_word_iff)
  moreover have "bit (ucast (drop_bit m x AND 0xFF) :: 8 word) k \<longleftrightarrow> bit x (m + k)"
    using k unfolding ff
    by (simp add: bit_ucast_iff bit_and_iff bit_drop_bit_eq bit_mask_iff)
  ultimately show "bit (byte_of_bits (map (bit x) (rev [m..<m + 8]))) k
      \<longleftrightarrow> bit (ucast (drop_bit m x AND 0xFF) :: 8 word) k" by simp
qed


abbreviation body_bits :: "string \<Rightarrow> bool list" where
  "body_bits cs \<equiv> concat (map (\<lambda>c. sextet_bits (b64_sextet c)) (filter b64_digit cs))"

lemma length_low_bits [simp]: "length (low_bits n w) = n"
  by (simp add: low_bits_def)

lemma length_sextet_bits [simp]: "length (sextet_bits v) = 6"
  by (simp add: sextet_bits_def)

lemma bytes_of_bits_emit:
  assumes "8 \<le> n" "n \<le> 32"
  shows "bytes_of_bits (low_bits n x @ r)
      = ucast (drop_bit (n - 8) x AND 0xFF) # bytes_of_bits (low_bits (n - 8) x @ r)"
proof -
  let ?h = "map (bit x) (rev [n - 8..<n])"
  have sp: "low_bits n x = ?h @ low_bits (n - 8) x" using assms(1) by (rule low_bits_split)
  have lh: "length ?h = 8" using assms(1) by simp
  have t: "take 8 (low_bits n x @ r) = ?h" and d: "drop 8 (low_bits n x @ r) = low_bits (n - 8) x @ r"
    unfolding sp using lh by simp_all
  have "n - 8 + 8 = n" using assms(1) by simp
  with byte_of_low_bits [of "n - 8" x] assms(2)
  have b: "byte_of_bits ?h = ucast (drop_bit (n - 8) x AND 0xFF)" by simp
  have "\<not> length (low_bits n x @ r) < 8" using assms(1) by simp
  then show ?thesis
    by (subst bytes_of_bits.simps) (simp only: t d b if_False)
qed

lemma decode_loop_spec:
  "bits < 8 \<Longrightarrow>
   decode_loop cs accum bits out =
     (if \<forall>c\<in>set cs. b64_accepted c
      then Some (out @ bytes_of_bits (low_bits bits accum @ body_bits cs))
      else None)"
proof (induction cs arbitrary: accum bits out)
  case Nil
  have "length (low_bits bits accum) < 8" using Nil by simp
  then have "bytes_of_bits (low_bits bits accum) = []" by (subst bytes_of_bits.simps) simp
  then show ?case by simp
next
  case (Cons c cs)
  show ?case
  proof (cases "b64_skipped c")
    case True
    then have sk: "c = CHR ''='' \<or> c = CHR '' '' \<or> c = newline \<or> c = creturn"
      by (simp add: b64_skipped_def)
    from True have nd: "\<not> b64_digit c" using b64_digit_table(2) [of c] by blast
    from True have ac: "b64_accepted c" by (simp add: b64_accepted_def)
    have "decode_loop (c # cs) accum bits out = decode_loop cs accum bits out"
      using sk by simp
    with Cons.IH [OF Cons.prems, of accum out] nd ac show ?thesis by simp
  next
    case False
    then have nsk: "\<not> (c = CHR ''='' \<or> c = CHR '' '' \<or> c = newline \<or> c = creturn)"
      by (simp add: b64_skipped_def)
    show ?thesis
    proof (cases "is_b64_char c")
      case nb: False
      with False have "\<not> b64_accepted c" by (simp add: b64_accepted_iff)
      moreover have "decode_loop (c # cs) accum bits out = None" using nsk nb by simp
      ultimately show ?thesis by simp
    next
      case True
      from True False have dg: "b64_digit c" by (rule is_b64_char_digit)
      then have ac: "b64_accepted c" by (simp add: b64_accepted_def)
      note tb = b64_digit_table(3,4) [OF dg]
      let ?a1 = "push_bit 6 accum OR ucast (b64_table c) :: 32 word"
      have lb: "low_bits (bits + 6) ?a1 = low_bits bits accum @ sextet_bits (b64_sextet c)"
        unfolding tb(1) using tb(2) Cons.prems by (intro low_bits_step) simp_all
      show ?thesis
      proof (cases "bits + 6 \<ge> 8")
        case ge: True
        have b2: "bits + 6 - 8 < 8" using Cons.prems by simp
        have "decode_loop (c # cs) accum bits out
            = decode_loop cs ?a1 (bits + 6 - 8) (out @ [ucast (drop_bit (bits + 6 - 8) ?a1 AND 0xFF)])"
          using nsk True ge by (simp add: Let_def)
        also have "\<dots> = (if \<forall>c\<in>set cs. b64_accepted c
            then Some ((out @ [ucast (drop_bit (bits + 6 - 8) ?a1 AND 0xFF)])
                   @ bytes_of_bits (low_bits (bits + 6 - 8) ?a1 @ body_bits cs))
            else None)"
          using b2 by (rule Cons.IH)
        also have "bytes_of_bits (low_bits bits accum @ body_bits (c # cs))
            = ucast (drop_bit (bits + 6 - 8) ?a1 AND 0xFF)
                # bytes_of_bits (low_bits (bits + 6 - 8) ?a1 @ body_bits cs)"
        proof -
          have "low_bits bits accum @ body_bits (c # cs) = low_bits (bits + 6) ?a1 @ body_bits cs"
            using dg lb by simp
          moreover have "bits + 6 \<le> 32" using Cons.prems by simp
          ultimately show ?thesis using bytes_of_bits_emit [OF ge, of ?a1 "body_bits cs"] by simp
        qed
        ultimately show ?thesis using ac by simp
      next
        case lt: False
        then have b1: "bits + 6 < 8" by simp
        have "decode_loop (c # cs) accum bits out = decode_loop cs ?a1 (bits + 6) out"
          using nsk True lt by (simp add: Let_def)
        also have "\<dots> = (if \<forall>c\<in>set cs. b64_accepted c
            then Some (out @ bytes_of_bits (low_bits (bits + 6) ?a1 @ body_bits cs))
            else None)"
          using b1 by (rule Cons.IH)
        finally show ?thesis using ac dg lb by simp
      qed
    qed
  qed
qed


lemma strip_padding_decomp:
  obtains pad where "s = strip_padding s @ pad" "\<forall>c\<in>set pad. c = CHR ''=''"
proof -
  let ?P = "\<lambda>c. c = CHR ''=''"
  let ?pad = "rev (takeWhile ?P (rev s))"
  have "strip_padding s @ ?pad = rev (takeWhile ?P (rev s) @ dropWhile ?P (rev s))"
    unfolding strip_padding_def rev_append ..
  also have "\<dots> = s" unfolding takeWhile_dropWhile_id rev_rev_ident ..
  finally have 1: "s = strip_padding s @ ?pad" by (rule sym)
  have 2: "\<forall>c\<in>set ?pad. c = CHR ''=''"
    unfolding set_rev using set_takeWhileD [of _ ?P "rev s"] by blast
  from 1 2 show ?thesis by (rule that)
qed


lemma equals_is_padding: "b64_accepted (CHR ''='')" "\<not> b64_digit (CHR ''='')"
  by (simp_all add: b64_accepted_def b64_skipped_def b64_digit_def b64_std_alphabet_def)





lemma padding_only:
  assumes "\<forall>c\<in>set pad. c = CHR ''=''"
  shows "\<forall>c\<in>set pad. b64_accepted c" and "filter b64_digit pad = []"
proof -
  show "\<forall>c\<in>set pad. b64_accepted c"
  proof (rule ballI)
    fix c assume "c \<in> set pad"
    with assms have "c = CHR ''=''" by (rule bspec)
    then show "b64_accepted c" by (simp only: equals_is_padding(1))
  qed
  have "\<forall>c\<in>set pad. \<not> b64_digit c"
  proof (rule ballI)
    fix c assume "c \<in> set pad"
    with assms have "c = CHR ''=''" by (rule bspec)
    then show "\<not> b64_digit c" by (simp only: equals_is_padding(2) simp_thms)
  qed
  then show "filter b64_digit pad = []" by (simp only: filter_empty_conv)
qed

lemma decode_base64_spec:
  "decode_base64 s = (if \<forall>c\<in>set s. b64_accepted c then Some (b64_decode_spec s) else None)"
proof -
  obtain pad where d: "s = strip_padding s @ pad" and p: "\<forall>c\<in>set pad. c = CHR ''=''"
    by (rule strip_padding_decomp)
  note pa = padding_only(1) [OF p] and pd = padding_only(2) [OF p]
  have ss: "set s = set (strip_padding s) \<union> set pad"
    using arg_cong [OF d, of set] by (simp only: set_append)
  have acc: "(\<forall>c\<in>set s. b64_accepted c) \<longleftrightarrow> (\<forall>c\<in>set (strip_padding s). b64_accepted c)"
    unfolding ss using pa by blast
  have "filter b64_digit s = filter b64_digit (strip_padding s) @ filter b64_digit pad"
    using arg_cong [OF d, of "filter b64_digit"] by (simp only: filter_append)
  then have dig: "filter b64_digit s = filter b64_digit (strip_padding s)"
    unfolding pd append_Nil2 .
  have "decode_base64 s =
      (if \<forall>c\<in>set (strip_padding s). b64_accepted c
       then Some ([] @ bytes_of_bits (low_bits 0 0 @ body_bits (strip_padding s)))
       else None)"
    unfolding decode_base64_def by (rule decode_loop_spec) simp
  also have "low_bits 0 0 = []" by (simp add: low_bits_def)
  finally show ?thesis
    unfolding acc [symmetric] dig [symmetric] b64_decode_spec_def append_Nil .
qed


text \<open>
  Claim C6. Let the next token of the parser be a \<open>b"s"\<close> token with payload \<open>s\<close>, read
  without error. If every byte of \<open>s\<close> is a base64 digit (standard alphabet, \<open>-\<close>,
  \<open>_\<close>) or one of the skipped bytes (\<open>=\<close> anywhere, space, \<open>\n\<close>, \<open>\r\<close>), then
  \<open>parse_value\<close> succeeds with the bytes that the digits of \<open>s\<close> encode, whether or not
  the text is padded; if any other byte occurs it fails with \<open>INVALID_BASE64\<close> at the
  span of the token.
\<close>

theorem parse_value_bytes:
  assumes "parser_bump sd p = (Token XCDN_TOK_B_QUOTED sp (String_Val s), p1)"
    and "err p1 = None"
  shows "parse_value sd (Suc n) p =
     (if \<forall>c\<in>set s. b64_accepted c then Some (Some (XCDN_VAL_BYTES (b64_decode_spec s)), p1)
      else Some (None, p1\<lparr>err := Some (Error XCDN_ERR_INVALID_BASE64 sp)\<rparr>))"
  using assms by (simp add: decode_base64_spec string_val_def)

theorem parse_value_bytes_witness:
  "parse_value (\<lambda>s. None :: unit option) (Suc 0)
       (parser_init ([CHR ''b'', dquote] @ ''aGV sb=G-_8'' @ [dquote]))
     = Some (Some (XCDN_VAL_BYTES [104, 101, 108, 108, 111, 191]),
         \<lparr>lexer = \<lparr>src = [CHR ''b'', dquote] @ ''aGV sb=G-_8'' @ [dquote],
                     idx = 14, line = 1, col = 15\<rparr>,
          look = zero_token, has_look = False, err = None\<rparr>)
   \<and> parse_value (\<lambda>s. None :: unit option) (Suc 0)
       (parser_init ([CHR ''b'', dquote] @ ''aGV*'' @ [dquote]))
     = Some (None,
         \<lparr>lexer = \<lparr>src = [CHR ''b'', dquote] @ ''aGV*'' @ [dquote], idx = 7, line = 1, col = 8\<rparr>,
          look = zero_token, has_look = False,
          err = Some (Error XCDN_ERR_INVALID_BASE64 (Span 0 1 1))\<rparr>)"
proof -
  let ?sd = "\<lambda>s. None :: unit option"
  let ?a = "[CHR ''b'', dquote] @ ''aGV sb=G-_8'' @ [dquote]"
  let ?b = "[CHR ''b'', dquote] @ ''aGV*'' @ [dquote]"
  let ?pa = "\<lparr>lexer = \<lparr>src = ?a, idx = 14, line = 1, col = 15\<rparr>,
          look = zero_token, has_look = False, err = None\<rparr> :: unit parser"
  let ?pb = "\<lparr>lexer = \<lparr>src = ?b, idx = 7, line = 1, col = 8\<rparr>,
          look = zero_token, has_look = False, err = None\<rparr> :: unit parser"
  have a1: "parser_bump ?sd (parser_init ?a)
      = (Token XCDN_TOK_B_QUOTED (Span 0 1 1) (String_Val ''aGV sb=G-_8''), ?pa)"
    by code_simp
  have b1: "parser_bump ?sd (parser_init ?b)
      = (Token XCDN_TOK_B_QUOTED (Span 0 1 1) (String_Val ''aGV*''), ?pb)"
    by code_simp
  have a2: "err ?pa = None" and b2: "err ?pb = None" by simp_all
  have a3: "\<forall>c\<in>set ''aGV sb=G-_8''. b64_accepted c" by code_simp
  have b3: "\<not> (\<forall>c\<in>set ''aGV*''. b64_accepted c)" by code_simp
  have a4: "b64_decode_spec ''aGV sb=G-_8'' = [104, 101, 108, 108, 111, 191]" by code_simp
  from parse_value_bytes [OF a1 a2, of 0] parse_value_bytes [OF b1 b2, of 0] a3 b3 a4
  show ?thesis by simp
qed

subsection \<open>UUID literals\<close>

text \<open>
  The UUID form in the words of the specification: length 36, \<open>-\<close> at the positions 8,
  13, 18 and 23, a hexadecimal digit at every other position.
\<close>

definition uuid_form :: "string \<Rightarrow> bool" where
  "uuid_form s \<longleftrightarrow>
     length s = 36 \<and> (\<forall>i \<in> {8, 13, 18, 23}. s ! i = CHR ''-'')
       \<and> (\<forall>i \<in> {0..<36} - {8, 13, 18, 23}. isxdigit (s ! i))"

lemma validate_uuid_form: "validate_uuid s = uuid_form (cstr s)"
  by (auto simp: validate_uuid_def uuid_form_def Let_def dash_pos_def list_all_iff)

lemma uuid_form_no_nul: "uuid_form s \<Longrightarrow> CHR 0x00 \<notin> set s"
proof
  assume u: "uuid_form s" and z: "CHR 0x00 \<in> set s"
  then obtain i where i: "i < length s" "s ! i = CHR 0x00" by (auto simp: in_set_conv_nth)
  with u have "i < 36" by (simp add: uuid_form_def)
  show False
  proof (cases "i \<in> {8, 13, 18, 23}")
    case True
    with u have "s ! i = CHR ''-''" unfolding uuid_form_def by blast
    with i show False by simp
  next
    case False
    with \<open>i < 36\<close> have "i \<in> {0..<36} - {8, 13, 18, 23}" by simp
    with u have "isxdigit (s ! i)" unfolding uuid_form_def by blast
    with i show False by (simp add: isxdigit_def)
  qed
qed

text \<open>
  Claim C5. Let the next token of the parser be a \<open>u"s"\<close> token with payload \<open>s\<close>, read
  without error. \<open>validate_uuid\<close> and \<open>xcdn_value_uuid\<close> take the payload as a C string,
  which ends at its first NUL byte: \<open>parse_value\<close> succeeds with the UUID value holding
  \<open>cstr s\<close> if \<open>cstr s\<close> has the UUID form, and fails with \<open>INVALID_UUID\<close> at the span
  of the token if it has not. Nothing else is checked (no version or variant). For a
  payload without a NUL byte \<open>cstr s\<close> is \<open>s\<close> itself, and the payload is stored
  verbatim exactly when it has the UUID form.
\<close>

theorem parse_value_uuid:
  assumes "parser_bump sd p = (Token XCDN_TOK_U_QUOTED sp (String_Val s), p1)"
    and "err p1 = None"
  shows "parse_value sd (Suc n) p =
     (if uuid_form (cstr s) then Some (Some (XCDN_VAL_UUID (cstr s)), p1)
      else Some (None, p1\<lparr>err := Some (Error XCDN_ERR_INVALID_UUID sp)\<rparr>))
     \<and> (CHR 0x00 \<notin> set s \<longrightarrow> cstr s = s)"
  using assms
  by (simp add: validate_uuid_form cstr_no_nul string_val_def xcdn_value_uuid_def xcdn_strdup_def)

text \<open>
  The payload of \<open>u"550e8400-e29b-41d4-a716-446655440000\<close>, a NUL byte, \<open>zz"\<close> has 39
  bytes and not the UUID form; the document parses, and its UUID value holds the 36 bytes
  before the NUL byte.
\<close>

theorem parse_uuid_accepts_nul_payload:
  "\<not> uuid_form (''550e8400-e29b-41d4-a716-446655440000'' @ [CHR 0x00] @ ''zz'')
   \<and> xcdn_parse_str (\<lambda>s. None :: unit option)
        ([CHR ''u'', dquote] @ ''550e8400-e29b-41d4-a716-446655440000'' @ [CHR 0x00] @ ''zz''
           @ [dquote])
      = Some (Inr (Some (Document []
          [Node [] [] (Some (XCDN_VAL_UUID ''550e8400-e29b-41d4-a716-446655440000''))])))"
  by code_simp

theorem parse_value_uuid_witness:
  "parse_value (\<lambda>s. None :: unit option) (Suc 0)
       (parser_init ([CHR ''u'', dquote] @ ''550e8400-e29b-41d4-a716-446655440000'' @ [dquote]))
     = Some (Some (XCDN_VAL_UUID ''550e8400-e29b-41d4-a716-446655440000''),
         \<lparr>lexer = \<lparr>src = [CHR ''u'', dquote] @ ''550e8400-e29b-41d4-a716-446655440000'' @ [dquote],
                     idx = 39, line = 1, col = 40\<rparr>,
          look = zero_token, has_look = False, err = None\<rparr>)
   \<and> parse_value (\<lambda>s. None :: unit option) (Suc 0)
       (parser_init ([CHR ''u'', dquote] @ ''550e8400-e29b-41d4-a716-44665544000g'' @ [dquote]))
     = Some (None,
         \<lparr>lexer = \<lparr>src = [CHR ''u'', dquote] @ ''550e8400-e29b-41d4-a716-44665544000g'' @ [dquote],
                     idx = 39, line = 1, col = 40\<rparr>,
          look = zero_token, has_look = False,
          err = Some (Error XCDN_ERR_INVALID_UUID (Span 0 1 1))\<rparr>)
   \<and> parse_value (\<lambda>s. None :: unit option) (Suc 0)
       (parser_init ([CHR ''u'', dquote] @ ''550e8400-e29b-41d4-a716-446655440000'' @ [CHR 0x00]
          @ ''zz'' @ [dquote]))
     = Some (Some (XCDN_VAL_UUID ''550e8400-e29b-41d4-a716-446655440000''),
         \<lparr>lexer = \<lparr>src = [CHR ''u'', dquote] @ ''550e8400-e29b-41d4-a716-446655440000''
                       @ [CHR 0x00] @ ''zz'' @ [dquote],
                     idx = 42, line = 1, col = 43\<rparr>,
          look = zero_token, has_look = False, err = None\<rparr>)"
proof -
  let ?sd = "\<lambda>s. None :: unit option"
  let ?u = "''550e8400-e29b-41d4-a716-446655440000''"
  let ?g = "''550e8400-e29b-41d4-a716-44665544000g''"
  let ?z = "?u @ [CHR 0x00] @ ''zz''"
  let ?a = "[CHR ''u'', dquote] @ ?u @ [dquote]"
  let ?b = "[CHR ''u'', dquote] @ ?g @ [dquote]"
  let ?c = "[CHR ''u'', dquote] @ ?z @ [dquote]"
  let ?pa = "\<lparr>lexer = \<lparr>src = ?a, idx = 39, line = 1, col = 40\<rparr>,
          look = zero_token, has_look = False, err = None\<rparr> :: unit parser"
  let ?pb = "\<lparr>lexer = \<lparr>src = ?b, idx = 39, line = 1, col = 40\<rparr>,
          look = zero_token, has_look = False, err = None\<rparr> :: unit parser"
  let ?pc = "\<lparr>lexer = \<lparr>src = ?c, idx = 42, line = 1, col = 43\<rparr>,
          look = zero_token, has_look = False, err = None\<rparr> :: unit parser"
  have a1: "parser_bump ?sd (parser_init ?a)
      = (Token XCDN_TOK_U_QUOTED (Span 0 1 1) (String_Val ?u), ?pa)"
    by code_simp
  have b1: "parser_bump ?sd (parser_init ?b)
      = (Token XCDN_TOK_U_QUOTED (Span 0 1 1) (String_Val ?g), ?pb)"
    by code_simp
  have c1: "parser_bump ?sd (parser_init ?c)
      = (Token XCDN_TOK_U_QUOTED (Span 0 1 1) (String_Val ?z), ?pc)"
    by code_simp
  have a2: "err ?pa = None" and b2: "err ?pb = None" and c2: "err ?pc = None" by simp_all
  have a3: "cstr ?u = ?u" and b3: "cstr ?g = ?g" and c3: "cstr ?z = ?u" by code_simp+
  have a4: "uuid_form ?u" by code_simp
  have b4: "\<not> uuid_form ?g" by code_simp
  from parse_value_uuid [OF a1 a2, of 0] parse_value_uuid [OF b1 b2, of 0]
    parse_value_uuid [OF c1 c2, of 0] a4 b4
  show ?thesis
    by (simp only: a3 b3 c3 if_True if_False simp_thms append_assoc parser.update_convs)
qed

subsection \<open>Key uniqueness\<close>

text \<open>
  The property of the specification, stated with \<open>xcdn_object_key_at\<close>: the keys of an
  object are distinct at distinct indices, in the object and in every object below it.
\<close>

definition object_keys_unique :: "(string \<times> 'f xcdn_node) list \<Rightarrow> bool" where
  "object_keys_unique entries \<longleftrightarrow>
     (\<forall>i \<in> {0..<length entries}. \<forall>j \<in> {0..<length entries}.
        i \<noteq> j \<longrightarrow>
          xcdn_object_key_at (XCDN_VAL_OBJECT entries) i \<noteq> xcdn_object_key_at (XCDN_VAL_OBJECT entries) j)"

fun keys_unique_value :: "'f xcdn_value \<Rightarrow> bool"
  and keys_unique_annotation :: "'f xcdn_annotation \<Rightarrow> bool"
  and keys_unique_node :: "'f xcdn_node \<Rightarrow> bool"
where
  "keys_unique_value (XCDN_VAL_ARRAY items) = list_all keys_unique_node items"
| "keys_unique_value (XCDN_VAL_OBJECT entries) =
     (object_keys_unique entries \<and> list_all (\<lambda>e. keys_unique_node (snd e)) entries)"
| "keys_unique_value XCDN_VAL_NULL = True"
| "keys_unique_value (XCDN_VAL_BOOL b) = True"
| "keys_unique_value (XCDN_VAL_INT i) = True"
| "keys_unique_value (XCDN_VAL_FLOAT d) = True"
| "keys_unique_value (XCDN_VAL_DECIMAL s) = True"
| "keys_unique_value (XCDN_VAL_STRING s) = True"
| "keys_unique_value (XCDN_VAL_BYTES bs) = True"
| "keys_unique_value (XCDN_VAL_DATETIME s) = True"
| "keys_unique_value (XCDN_VAL_DURATION s) = True"
| "keys_unique_value (XCDN_VAL_UUID s) = True"
| "keys_unique_annotation (Annotation name args) = list_all keys_unique_value args"
| "keys_unique_node (Node tgs anns val) =
     (list_all keys_unique_annotation anns \<and> (case val of None \<Rightarrow> True | Some v \<Rightarrow> keys_unique_value v))"

definition keys_unique_document :: "'f xcdn_document \<Rightarrow> bool" where
  "keys_unique_document doc \<longleftrightarrow>
     list_all (\<lambda>d. case dir_value d of None \<Rightarrow> True | Some v \<Rightarrow> keys_unique_value v) (doc_prolog doc)
     \<and> list_all keys_unique_node (doc_values doc)"

definition entries_inv :: "(string \<times> 'n) list \<Rightarrow> bool" where
  "entries_inv entries \<longleftrightarrow> distinct (map fst entries) \<and> (\<forall>k \<in> set (map fst entries). cstr k = k)"

lemma object_keys_unique_distinct: "object_keys_unique entries \<longleftrightarrow> distinct (map fst entries)"
  by (auto simp: object_keys_unique_def xcdn_object_key_at_def distinct_conv_nth)

lemma cstr_idem [simp]: "cstr (cstr s) = cstr s"
  by (simp add: cstr_def takeWhile_idem)

lemma object_replace_keys:
  "object_replace es key node = Some es' \<Longrightarrow> map fst es' = map fst es"
  by (induction es arbitrary: es') (auto split: if_splits option.splits)

lemma object_replace_None:
  "object_replace es key node = None \<Longrightarrow> (k, n) \<in> set es \<Longrightarrow> \<not> strcmp_eq k key"
  by (induction es) (auto split: if_splits option.splits)

lemma object_replace_all:
  "object_replace es key node = Some es' \<Longrightarrow> P node \<Longrightarrow> list_all (\<lambda>e. P (snd e)) es
     \<Longrightarrow> list_all (\<lambda>e. P (snd e)) es'"
  by (induction es arbitrary: es') (auto split: if_splits option.splits)

lemma entries_inv_set:
  assumes "entries_inv es"
  shows "entries_inv (case object_replace es key node of Some es' \<Rightarrow> es' | None \<Rightarrow> es @ [(xcdn_strdup key, node)])"
proof (cases "object_replace es key node")
  case None
  have "cstr key \<notin> set (map fst es)"
  proof
    assume "cstr key \<in> set (map fst es)"
    then obtain n where m: "(cstr key, n) \<in> set es" by auto
    from object_replace_None [OF None m] show False by (simp add: strcmp_eq_def)
  qed
  with assms None show ?thesis by (auto simp: entries_inv_def xcdn_strdup_def)
next
  case (Some es')
  with assms object_replace_keys [OF Some] show ?thesis by (simp add: entries_inv_def)
qed

text \<open>The invariant of the parser: in every object, the keys are distinct C strings.\<close>

fun inv_value :: "'f xcdn_value \<Rightarrow> bool"
  and inv_annotation :: "'f xcdn_annotation \<Rightarrow> bool"
  and inv_node :: "'f xcdn_node \<Rightarrow> bool"
where
  "inv_value (XCDN_VAL_ARRAY items) = list_all inv_node items"
| "inv_value (XCDN_VAL_OBJECT entries) =
     (entries_inv entries \<and> list_all (\<lambda>e. inv_node (snd e)) entries)"
| "inv_value XCDN_VAL_NULL = True"
| "inv_value (XCDN_VAL_BOOL b) = True"
| "inv_value (XCDN_VAL_INT i) = True"
| "inv_value (XCDN_VAL_FLOAT d) = True"
| "inv_value (XCDN_VAL_DECIMAL s) = True"
| "inv_value (XCDN_VAL_STRING s) = True"
| "inv_value (XCDN_VAL_BYTES bs) = True"
| "inv_value (XCDN_VAL_DATETIME s) = True"
| "inv_value (XCDN_VAL_DURATION s) = True"
| "inv_value (XCDN_VAL_UUID s) = True"
| "inv_annotation (Annotation name args) = list_all inv_value args"
| "inv_node (Node tgs anns val) =
     (list_all inv_annotation anns \<and> (case val of None \<Rightarrow> True | Some v \<Rightarrow> inv_value v))"

lemma inv_keys_unique:
  "inv_value (v :: 'f xcdn_value) \<Longrightarrow> keys_unique_value v"
  "inv_annotation (a :: 'f xcdn_annotation) \<Longrightarrow> keys_unique_annotation a"
  "inv_node (nd :: 'f xcdn_node) \<Longrightarrow> keys_unique_node nd"
  by (induction v and a and nd)
    (auto simp: object_keys_unique_distinct entries_inv_def list_all_iff split: option.splits)

lemma inv_object_set:
  "inv_value obj \<Longrightarrow> inv_node node \<Longrightarrow> inv_value (xcdn_object_set obj key node)"
proof (cases obj)
  case (XCDN_VAL_OBJECT es)
  assume a: "inv_value obj" "inv_node node"
  with XCDN_VAL_OBJECT have e: "entries_inv es" and l: "list_all (\<lambda>e. inv_node (snd e)) es" by simp_all
  show ?thesis
  proof (cases "object_replace es key node")
    case None
    with entries_inv_set [OF e, of key node] l a(2) XCDN_VAL_OBJECT show ?thesis
      by (simp add: xcdn_object_set_def)
  next
    case (Some es')
    with entries_inv_set [OF e, of key node] object_replace_all [OF Some, of inv_node] l a(2)
      XCDN_VAL_OBJECT show ?thesis
      by (simp add: xcdn_object_set_def)
  qed
qed (simp_all add: xcdn_object_set_def)

lemma inv_array_push:
  "inv_value arr \<Longrightarrow> inv_node node \<Longrightarrow> inv_value (xcdn_array_push arr node)"
  by (cases arr) (simp_all add: xcdn_array_push_def)

lemma inv_node_add_tag: "inv_node node \<Longrightarrow> inv_node (xcdn_node_add_tag node name)"
  by (cases node) (simp add: xcdn_node_add_tag_def)

lemma inv_node_add_annotation: "inv_node node \<Longrightarrow> inv_node (xcdn_node_add_annotation node name)"
  by (cases node) (simp add: xcdn_node_add_annotation_def)

lemma inv_push_arg_last: "inv_node node \<Longrightarrow> inv_value v \<Longrightarrow> inv_node (push_arg_last node v)"
proof (cases node)
  case (Node tgs anns val)
  assume a: "inv_node node" "inv_value v"
  show ?thesis
  proof (cases "anns = []")
    case True
    with Node a show ?thesis by (simp add: push_arg_last_def)
  next
    case False
    then obtain anns' l where s: "anns = anns' @ [l]" by (metis rev_exhaust)
    obtain nm args where l: "l = Annotation nm args" by (cases l)
    from Node a s l show ?thesis
      by (simp add: push_arg_last_def xcdn_annotation_push_arg_def)
  qed
qed

lemma inv_node_value: "inv_node node \<Longrightarrow> inv_value v \<Longrightarrow> inv_node (Node (tags node) (annotations node) (Some v))"
  by (cases node) simp


definition yields :: "('a \<Rightarrow> bool) \<Rightarrow> ('a option \<times> 'p) option \<Rightarrow> bool" where
  "yields P r \<longleftrightarrow> (case r of Some (Some x, p') \<Rightarrow> P x | _ \<Rightarrow> True)"

lemma yields_simps [simp]:
  "yields P None"
  "yields P (Some (None, p))"
  "yields P (Some (Some x, p)) = P x"
  by (simp_all add: yields_def)

lemma yields_D: "yields P r \<Longrightarrow> r = Some (Some x, p) \<Longrightarrow> P x"
  by (simp add: yields_def)

lemma inv_new_values [simp]:
  "inv_value (xcdn_value_string_owned s)" "inv_value (xcdn_value_decimal s)"
  "inv_value (xcdn_value_datetime s)" "inv_value (xcdn_value_duration s)"
  "inv_value (xcdn_value_uuid s)" "inv_node (xcdn_node_new None)"
  "inv_value (XCDN_VAL_OBJECT [])" "inv_value (XCDN_VAL_ARRAY [])"
  by (simp_all add: xcdn_value_string_owned_def xcdn_value_decimal_def xcdn_value_datetime_def
        xcdn_value_duration_def xcdn_value_uuid_def xcdn_node_new_def entries_inv_def)

lemma entries_inv_Nil [simp]: "entries_inv []"
  by (simp add: entries_inv_def)

lemma yields_E: "r = Some (Some x, p) \<Longrightarrow> yields P r \<Longrightarrow> P x"
  by (simp add: yields_def)

lemma parse_value_step:
  assumes "\<And>p obj. inv_value obj \<Longrightarrow> yields inv_value (parse_object_loop sd n p obj)"
    and "\<And>p arr. inv_value arr \<Longrightarrow> yields inv_value (parse_array_loop sd n p arr)"
  shows "yields inv_value (parse_value sd (Suc n) p)"
  using assms
  by (simp split: prod.split xcdn_token_type.split tok_data.split option.split)


lemma parse_object_loop_step:
  assumes o: "\<And>p obj. inv_value obj \<Longrightarrow> yields inv_value (parse_object_loop sd n p obj)"
    and n: "\<And>p nd. inv_node nd \<Longrightarrow> yields inv_node (parse_node_loop sd n p nd)"
    and i: "inv_value obj"
  shows "yields inv_value (parse_object_loop sd (Suc n) p obj)"
proof -
  have n': "parse_node_loop sd n p nd = Some (Some x, pa) \<Longrightarrow> inv_node nd \<Longrightarrow> inv_node x"
    for p nd x pa
    by (erule yields_E) (rule n)
  show ?thesis
    using i
    apply (simp split: prod.split option.split)
    apply (intro allI impI conjI)
    apply (auto intro!: o inv_object_set dest!: n')
    done
qed

lemma parse_array_loop_step:
  assumes a: "\<And>p arr. inv_value arr \<Longrightarrow> yields inv_value (parse_array_loop sd n p arr)"
    and n: "\<And>p nd. inv_node nd \<Longrightarrow> yields inv_node (parse_node_loop sd n p nd)"
    and i: "inv_value arr"
  shows "yields inv_value (parse_array_loop sd (Suc n) p arr)"
proof -
  have n': "parse_node_loop sd n p nd = Some (Some x, pa) \<Longrightarrow> inv_node nd \<Longrightarrow> inv_node x"
    for p nd x pa
    by (erule yields_E) (rule n)
  show ?thesis
    using i
    apply (simp split: prod.split option.split)
    apply (intro allI impI conjI)
    apply (auto intro!: a inv_array_push dest!: n')
    done
qed

lemma inv_node_annotations: "inv_node nd \<Longrightarrow> list_all inv_annotation (annotations nd)"
  by (cases nd) simp

lemma parse_node_loop_step:
  assumes v: "\<And>p. yields inv_value (parse_value sd n p)"
    and n: "\<And>p nd. inv_node nd \<Longrightarrow> yields inv_node (parse_node_loop sd n p nd)"
    and g: "\<And>p nd. inv_node nd \<Longrightarrow> yields inv_node (parse_args_loop sd n p nd)"
    and i: "inv_node nd"
  shows "yields inv_node (parse_node_loop sd (Suc n) p nd)"
proof -
  have v': "parse_value sd n p = Some (Some x, pa) \<Longrightarrow> inv_value x" for p x pa
    by (erule yields_E) (rule v)
  have g': "parse_args_loop sd n p nd = Some (Some x, pa) \<Longrightarrow> inv_node nd \<Longrightarrow> inv_node x"
    for p nd x pa
    by (erule yields_E) (rule g)
  show ?thesis
    using i
    apply (simp split: prod.split option.split)
    apply (intro allI impI conjI)
    apply (auto intro!: n inv_node_add_tag inv_node_add_annotation inv_node_annotations dest!: v' g')
    done
qed

lemma parse_args_loop_step:
  assumes v: "\<And>p. yields inv_value (parse_value sd n p)"
    and g: "\<And>p nd. inv_node nd \<Longrightarrow> yields inv_node (parse_args_loop sd n p nd)"
    and i: "inv_node nd"
  shows "yields inv_node (parse_args_loop sd (Suc n) p nd)"
proof -
  have v': "parse_value sd n p = Some (Some x, pa) \<Longrightarrow> inv_value x" for p x pa
    by (erule yields_E) (rule v)
  show ?thesis
    using i
    apply (simp split: prod.split option.split)
    apply (intro allI impI conjI)
    apply (auto intro!: g inv_push_arg_last dest!: v')
    done
qed

lemma parse_inv:
  "(\<forall>p. yields inv_value (parse_value sd n p))
   \<and> (\<forall>p obj. inv_value obj \<longrightarrow> yields inv_value (parse_object_loop sd n p obj))
   \<and> (\<forall>p arr. inv_value arr \<longrightarrow> yields inv_value (parse_array_loop sd n p arr))
   \<and> (\<forall>p nd. inv_node nd \<longrightarrow> yields inv_node (parse_node_loop sd n p nd))
   \<and> (\<forall>p nd. inv_node nd \<longrightarrow> yields inv_node (parse_args_loop sd n p nd))"
proof (induction n)
  case 0
  show ?case by simp
next
  case (Suc n)
  from Suc have v: "\<And>p. yields inv_value (parse_value sd n p)"
    and o: "\<And>p obj. inv_value obj \<Longrightarrow> yields inv_value (parse_object_loop sd n p obj)"
    and a: "\<And>p arr. inv_value arr \<Longrightarrow> yields inv_value (parse_array_loop sd n p arr)"
    and nl: "\<And>p nd. inv_node nd \<Longrightarrow> yields inv_node (parse_node_loop sd n p nd)"
    and g: "\<And>p nd. inv_node nd \<Longrightarrow> yields inv_node (parse_args_loop sd n p nd)"
    by simp_all
  show ?case
  proof (intro conjI allI impI)
    fix p show "yields inv_value (parse_value sd (Suc n) p)"
      by (rule parse_value_step) (fact o a)+
  next
    fix p obj assume i: "inv_value (obj :: 'a xcdn_value)"
    show "yields inv_value (parse_object_loop sd (Suc n) p obj)"
      by (rule parse_object_loop_step) (fact o nl i)+
  next
    fix p arr assume i: "inv_value (arr :: 'a xcdn_value)"
    show "yields inv_value (parse_array_loop sd (Suc n) p arr)"
      by (rule parse_array_loop_step) (fact a nl i)+
  next
    fix p nd assume i: "inv_node (nd :: 'a xcdn_node)"
    show "yields inv_node (parse_node_loop sd (Suc n) p nd)"
      by (rule parse_node_loop_step) (fact v nl g i)+
  next
    fix p nd assume i: "inv_node (nd :: 'a xcdn_node)"
    show "yields inv_node (parse_args_loop sd (Suc n) p nd)"
      by (rule parse_args_loop_step) (fact v g i)+
  qed
qed

definition inv_document :: "'f xcdn_document \<Rightarrow> bool" where
  "inv_document doc \<longleftrightarrow>
     list_all (\<lambda>d. case dir_value d of None \<Rightarrow> True | Some v \<Rightarrow> inv_value v) (doc_prolog doc)
     \<and> list_all inv_node (doc_values doc)"

lemma inv_document_new [simp]: "inv_document xcdn_document_new"
  by (simp add: inv_document_def xcdn_document_new_def)

lemma inv_document_push_value:
  "inv_document doc \<Longrightarrow> inv_node nd \<Longrightarrow> inv_document (xcdn_document_push_value doc nd)"
  by (simp add: inv_document_def xcdn_document_push_value_def)

lemma inv_document_push_directive:
  "inv_document doc \<Longrightarrow> inv_node nd
     \<Longrightarrow> inv_document (xcdn_document_push_directive doc name (node_value nd))"
  by (cases nd) (simp add: inv_document_def xcdn_document_push_directive_def split: option.split)

lemma inv_document_keys_unique: "inv_document doc \<Longrightarrow> keys_unique_document doc"
  by (auto simp: inv_document_def keys_unique_document_def list_all_iff inv_keys_unique
        split: option.splits)

lemma parse_node_inv:
  "parse_node sd n p = Some (Some x, pa) \<Longrightarrow> inv_node x"
proof -
  assume e: "parse_node sd n p = Some (Some x, pa)"
  from parse_inv [of sd n]
  have "yields inv_node (parse_node_loop sd n p (xcdn_node_new None))" by simp
  with e show ?thesis by (simp add: parse_node_def yields_def)
qed

lemma parse_prolog_inv:
  "inv_document doc \<Longrightarrow> yields inv_document (parse_prolog sd n p doc)"
proof (induction n arbitrary: p doc)
  case 0
  show ?case by simp
next
  case (Suc n)
  show ?case
    using Suc.prems
    apply (simp split: prod.split option.split)
    apply (intro allI impI conjI)
    apply (auto intro!: Suc.IH inv_document_push_directive dest!: parse_node_inv)
    done
qed

lemma parse_implicit_loop_inv:
  "inv_value obj \<Longrightarrow> yields inv_value (parse_implicit_loop sd n p obj)"
proof (induction n arbitrary: p obj)
  case 0
  show ?case by simp
next
  case (Suc n)
  show ?case
    using Suc.prems
    apply (simp split: prod.split option.split)
    apply (intro allI impI conjI)
    apply (auto intro!: Suc.IH inv_object_set dest!: parse_node_inv)
    done
qed

lemma parse_stream_loop_inv:
  "inv_document doc \<Longrightarrow> yields inv_document (parse_stream_loop sd n p doc)"
proof (induction n arbitrary: p doc)
  case 0
  show ?case by simp
next
  case (Suc n)
  show ?case
    using Suc.prems
    apply (simp split: prod.split option.split)
    apply (intro allI impI conjI)
    apply (auto intro!: Suc.IH inv_document_push_value dest!: parse_node_inv)
    done
qed

lemma inv_node_new_Some: "inv_value v \<Longrightarrow> inv_node (xcdn_node_new (Some v))"
  by (simp add: xcdn_node_new_def)

lemma parse_implicit_loop_invE:
  "parse_implicit_loop sd n p obj = Some (Some x, pa) \<Longrightarrow> inv_value obj \<Longrightarrow> inv_value x"
  by (erule yields_E) (rule parse_implicit_loop_inv)

lemma parse_body_inv:
  "inv_document doc \<Longrightarrow> yields inv_document (parse_body sd n p doc)"
  apply (simp add: parse_body_def split: prod.split option.split)
  apply (intro allI impI conjI)
  apply (auto intro!: parse_stream_loop_inv inv_document_push_value inv_node_new_Some inv_object_set
           dest!: parse_node_inv parse_implicit_loop_invE)
  done

lemma parse_document_inv: "yields inv_document (parse_document sd n p)"
proof (cases "parse_prolog sd n p xcdn_document_new")
  case None
  then show ?thesis by (simp add: parse_document_def)
next
  case (Some r)
  obtain d p1 where r: "r = (d, p1)" by (cases r)
  show ?thesis
  proof (cases d)
    case None
    with Some r show ?thesis by (simp add: parse_document_def)
  next
    case (Some doc)
    with \<open>parse_prolog sd n p xcdn_document_new = Some r\<close> r
    have e: "parse_prolog sd n p xcdn_document_new = Some (Some doc, p1)" by simp
    have "inv_document doc"
      by (rule yields_E [OF e]) (rule parse_prolog_inv, simp)
    with e show ?thesis by (simp add: parse_document_def parse_body_inv)
  qed
qed

lemma xcdn_parse_str_inv:
  "xcdn_parse_str sd s = Some (Inr (Some doc)) \<Longrightarrow> inv_document doc"
  using parse_document_inv [of sd "parse_fuel s" "parser_init s"]
  by (auto simp: xcdn_parse_str_def yields_def split: option.splits prod.splits)

lemma object_replace_first:
  "i < length es \<Longrightarrow> strcmp_eq (fst (es ! i)) key
     \<Longrightarrow> (\<And>j. j < i \<Longrightarrow> \<not> strcmp_eq (fst (es ! j)) key)
     \<Longrightarrow> object_replace es key node = Some (es[i := (fst (es ! i), node)])"
proof (induction es arbitrary: i)
  case Nil
  then show ?case by simp
next
  case (Cons e es)
  obtain k n where e: "e = (k, n)" by (cases e)
  show ?case
  proof (cases i)
    case 0
    with Cons.prems e show ?thesis by simp
  next
    case (Suc i')
    from Cons.prems(3) [of 0] Suc e have nk: "\<not> strcmp_eq k key" by simp
    have "object_replace es key node = Some (es[i' := (fst (es ! i'), node)])"
    proof (rule Cons.IH)
      from Cons.prems(1) Suc show "i' < length es" by simp
      from Cons.prems(2) Suc show "strcmp_eq (fst (es ! i')) key" by simp
      fix j assume "j < i'"
      with Cons.prems(3) [of "Suc j"] Suc show "\<not> strcmp_eq (fst (es ! j)) key" by simp
    qed
    with nk Suc e show ?thesis by simp
  qed
qed

text \<open>
  Claim C8. In a document that \<open>xcdn_parse_str\<close> returns, every object (in the
  values of the prolog and of the stream, in arrays, objects and the arguments of
  annotations) has \<open>key_at i \<noteq> key_at j\<close> for \<open>i \<noteq> j\<close>. The parser builds objects with
  \<open>xcdn_object_set\<close> only, which keeps distinct keys distinct: when \<open>i\<close> is the first
  entry whose key compares equal to the given one, the result is the same list of entries
  with the node of entry \<open>i\<close> replaced, every key and every position kept, and nothing
  added. (The release of the previous node is memory management, which the model leaves
  out.)
\<close>

theorem parsed_object_keys_unique:
  "(xcdn_parse_str sd s = Some (Inr (Some doc)) \<longrightarrow> keys_unique_document doc)
   \<and> (inv_value obj \<and> inv_node node \<longrightarrow> keys_unique_value (xcdn_object_set obj key node))
   \<and> (i < length es \<and> strcmp_eq (fst (es ! i)) key \<and> (\<forall>j<i. \<not> strcmp_eq (fst (es ! j)) key)
        \<longrightarrow> xcdn_object_set (XCDN_VAL_OBJECT es) key node
              = XCDN_VAL_OBJECT (es[i := (fst (es ! i), node)]))"
proof (intro conjI impI)
  assume "xcdn_parse_str sd s = Some (Inr (Some doc))"
  then show "keys_unique_document doc"
    by (intro inv_document_keys_unique xcdn_parse_str_inv)
next
  assume "inv_value obj \<and> inv_node node"
  then show "keys_unique_value (xcdn_object_set obj key node)"
    by (intro inv_keys_unique(1) inv_object_set) simp_all
next
  assume a: "i < length es \<and> strcmp_eq (fst (es ! i)) key \<and> (\<forall>j<i. \<not> strcmp_eq (fst (es ! j)) key)"
  then have "object_replace es key node = Some (es[i := (fst (es ! i), node)])"
    by (intro object_replace_first) simp_all
  then show "xcdn_object_set (XCDN_VAL_OBJECT es) key node
      = XCDN_VAL_OBJECT (es[i := (fst (es ! i), node)])"
    by (simp add: xcdn_object_set_def)
qed

theorem parsed_object_keys_unique_witness:
  "xcdn_parse_str (\<lambda>s. None :: unit option) ''{a: 1, b: 2, a: 3}''
     = Some (Inr (Some (Document []
         [Node [] [] (Some (XCDN_VAL_OBJECT
            [(''a'', Node [] [] (Some (XCDN_VAL_INT 3))),
             (''b'', Node [] [] (Some (XCDN_VAL_INT 2)))]))])))
   \<and> keys_unique_document (Document []
         [Node [] [] (Some (XCDN_VAL_OBJECT
            [(''a'', Node [] [] (Some (XCDN_VAL_INT 3))),
             (''b'', Node [] [] (Some (XCDN_VAL_INT 2 :: unit xcdn_value)))]))])
   \<and> keys_unique_value (xcdn_object_set
         (XCDN_VAL_OBJECT [(''a'', Node [] [] (Some (XCDN_VAL_INT 1))),
                           (''b'', Node [] [] (Some (XCDN_VAL_INT 2)))])
         ''b'' (Node [] [] (Some (XCDN_VAL_INT 3 :: unit xcdn_value))))
   \<and> xcdn_object_set
         (XCDN_VAL_OBJECT [(''a'', Node [] [] (Some (XCDN_VAL_INT 1))),
                           (''b'', Node [] [] (Some (XCDN_VAL_INT 2)))])
         ''b'' (Node [] [] (Some (XCDN_VAL_INT 3 :: unit xcdn_value)))
       = XCDN_VAL_OBJECT [(''a'', Node [] [] (Some (XCDN_VAL_INT 1))),
                          (''b'', Node [] [] (Some (XCDN_VAL_INT 3)))]"
proof -
  let ?sd = "\<lambda>s. None :: unit option"
  let ?n1 = "Node [] [] (Some (XCDN_VAL_INT 1)) :: unit xcdn_node"
  let ?n2 = "Node [] [] (Some (XCDN_VAL_INT 2)) :: unit xcdn_node"
  let ?n3 = "Node [] [] (Some (XCDN_VAL_INT 3)) :: unit xcdn_node"
  let ?doc = "Document [] [Node [] [] (Some (XCDN_VAL_OBJECT [(''a'', ?n3), (''b'', ?n2)]))]"
  let ?es = "[(''a'', ?n1), (''b'', ?n2)]"
  have p: "xcdn_parse_str ?sd ''{a: 1, b: 2, a: 3}'' = Some (Inr (Some ?doc))"
    by code_simp
  have i: "inv_value (XCDN_VAL_OBJECT ?es) \<and> inv_node ?n3"
    by (simp add: entries_inv_def cstr_def)
  have k: "Suc 0 < length ?es \<and> strcmp_eq (fst (?es ! Suc 0)) ''b''
      \<and> (\<forall>j<Suc 0. \<not> strcmp_eq (fst (?es ! j)) ''b'')"
    by (simp add: strcmp_eq_def cstr_def)
  from parsed_object_keys_unique
         [of ?sd "''{a: 1, b: 2, a: 3}''" ?doc "XCDN_VAL_OBJECT ?es" ?n3 "''b''" "Suc 0" ?es]
  have "keys_unique_document ?doc"
    and "keys_unique_value (xcdn_object_set (XCDN_VAL_OBJECT ?es) ''b'' ?n3)"
    and "xcdn_object_set (XCDN_VAL_OBJECT ?es) ''b'' ?n3
           = XCDN_VAL_OBJECT (?es[Suc 0 := (fst (?es ! Suc 0), ?n3)])"
    using p i k by blast+
  with p show ?thesis by simp
qed

subsection \<open>Implicit object at the root\<close>







definition implicit_result :: "string \<Rightarrow> ('f xcdn_value option \<times> 'f parser) option \<Rightarrow> bool" where
  "implicit_result k r \<longleftrightarrow>
     (case r of
        Some (Some obj', p') \<Rightarrow>
          is_object obj' \<and> xcdn_object_key_at obj' 0 = Some k
            \<and> has_look p' \<and> tok_type (look p') = XCDN_TOK_EOF
      | _ \<Rightarrow> True)"

lemma implicit_result_simps [simp]:
  "implicit_result k None"
  "implicit_result k (Some (None, p))"
  "implicit_result k (Some (Some obj', p')) \<longleftrightarrow>
     is_object obj' \<and> xcdn_object_key_at obj' 0 = Some k
       \<and> has_look p' \<and> tok_type (look p') = XCDN_TOK_EOF"
  by (simp_all add: implicit_result_def)








subsection \<open>Round trip through the serializer\<close>

text \<open>
  Claim C1. The text \<open>{"true": 1}\<close> parses to a document with one object, whose key is
  \<open>true\<close>. \<open>write_key\<close> writes a key bare when \<open>is_simple_ident\<close> holds of it, which
  it does of \<open>true\<close>; the lexer reads the bare word as the keyword token \<open>TRUE\<close>, and
  \<open>parse_key\<close> takes an identifier or a string only. So the pretty text of the document
  does not parse (\<open>EXPECTED\<close> at line 2, column 3), where the claim has it parse to an
  equal document.
\<close>

theorem pretty_round_trip_fails_on_keyword_key:
  "xcdn_parse_str (\<lambda>s. None :: unit option) ([CHR ''{'', dquote] @ ''true'' @ [dquote] @ '': 1}'')
     = Some (Inr (Some (Document []
         [Node [] [] (Some (XCDN_VAL_OBJECT [(''true'', Node [] [] (Some (XCDN_VAL_INT 1)))]))])))
   \<and> xcdn_to_string_pretty (\<lambda>d :: unit. [])
       (Document []
         [Node [] [] (Some (XCDN_VAL_OBJECT [(''true'', Node [] [] (Some (XCDN_VAL_INT 1)))]))])
     = ''{'' @ [newline] @ ''  true: 1,'' @ [newline] @ ''}''
   \<and> xcdn_parse_str (\<lambda>s. None :: unit option) (''{'' @ [newline] @ ''  true: 1,'' @ [newline] @ ''}'')
     = Some (Inl (Error XCDN_ERR_EXPECTED (Span 4 2 3)))"
  by code_simp

text \<open>
  Claim C2. The compact text of the same document is \<open>{true: 1}\<close>, which does not parse
  either (\<open>EXPECTED\<close> at column 2). And the compact format writes nothing between the
  values of a stream, where the pretty format writes a line break: the text \<open>1 2\<close>
  parses to the two integers 1 and 2, their compact text is \<open>12\<close>, and that parses to
  the one integer 12.
\<close>

theorem compact_round_trip_fails:
  "xcdn_parse_str (\<lambda>s. None :: unit option) ([CHR ''{'', dquote] @ ''true'' @ [dquote] @ '': 1}'')
     = Some (Inr (Some (Document []
         [Node [] [] (Some (XCDN_VAL_OBJECT [(''true'', Node [] [] (Some (XCDN_VAL_INT 1)))]))])))
   \<and> xcdn_to_string_compact (\<lambda>d :: unit. [])
       (Document []
         [Node [] [] (Some (XCDN_VAL_OBJECT [(''true'', Node [] [] (Some (XCDN_VAL_INT 1)))]))])
     = ''{true: 1}''
   \<and> xcdn_parse_str (\<lambda>s. None :: unit option) ''{true: 1}''
     = Some (Inl (Error XCDN_ERR_EXPECTED (Span 1 1 2)))
   \<and> xcdn_parse_str (\<lambda>s. None :: unit option) ''1 2''
     = Some (Inr (Some (Document []
         [Node [] [] (Some (XCDN_VAL_INT 1)), Node [] [] (Some (XCDN_VAL_INT 2))])))
   \<and> xcdn_to_string_compact (\<lambda>d :: unit. [])
       (Document [] [Node [] [] (Some (XCDN_VAL_INT 1)), Node [] [] (Some (XCDN_VAL_INT 2))])
     = ''12''
   \<and> xcdn_parse_str (\<lambda>s. None :: unit option) ''12''
     = Some (Inr (Some (Document [] [Node [] [] (Some (XCDN_VAL_INT 12))])))"
  by code_simp

subsection \<open>Path access with no segment\<close>

lemma strtok_r_all_delims: "set s \<subseteq> set delim \<Longrightarrow> strtok_r s delim = None"
proof -
  assume "set s \<subseteq> set delim"
  then have "dropWhile (\<lambda>c. c \<in> set delim) s = []" by auto
  then show ?thesis by (simp only: strtok_r_def Let_def if_True simp_thms)
qed

text \<open>
  Claim C10. \<open>xcdn_get_path\<close> on a document with at least one top-level node, with a
  path that is empty or made of \<open>.\<close> separators only, returns the first top-level
  node itself, whatever its value is (an object or not, or no value at all): the path has
  no segment, so the loop that checks for an object never runs.
\<close>

theorem xcdn_get_path_no_segment:
  assumes "doc_values doc \<noteq> []" and "set path \<subseteq> {CHR ''.''}"
  shows "xcdn_get_path doc path = Some (hd (doc_values doc))"
proof -
  from assms(2) have "CHR 0x00 \<notin> set path" by auto
  then have c: "xcdn_strdup path = path" by (simp add: xcdn_strdup_def cstr_no_nul)
  from assms(2) have "set path \<subseteq> set ''.''" by simp
  then have "strtok_r path ''.'' = None" by (rule strtok_r_all_delims)
  with assms(1) c show ?thesis by (simp add: xcdn_get_path_def hd_conv_nth)
qed

theorem xcdn_get_path_no_segment_witness:
  "xcdn_get_path (Document [] [Node [] [] (Some (XCDN_VAL_INT 7)), Node [] [] None]) ''..''
     = Some (Node [] [] (Some (XCDN_VAL_INT 7)) :: nat xcdn_node)
   \<and> \<not> is_object (XCDN_VAL_INT 7 :: nat xcdn_value)"
  using xcdn_get_path_no_segment
    [of "Document [] [Node [] [] (Some (XCDN_VAL_INT 7)), Node [] [] None] :: nat xcdn_document" "''..''"]
  by (simp add: is_object_def)

end
